theory Spec2Isabelle
  imports Complex_Main "HOL-Library.Char_ord" "HOL-Library.List_Lexorder" "HOL-Library.Multiset"
begin

section \<open>Data model\<close>

text \<open>
  The layout engine of the ER-diagram generator works on a G6 graph: a list of nodes
  (each with a model \<open>{id, nodeType, x, y, parentEntity}\<close> and a bounding box) and a
  list of edges \<open>{source, target}\<close>, plus the size of the drawing surface.

  JavaScript numbers are modelled as the reals: \<open>Math.hypot\<close> is the Euclidean norm,
  \<open>Math.sqrt\<close> is \<open>sqrt\<close>, and rounding error, infinities and NaN are outside the model.
  Node ids are strings. \<open>a.localeCompare(b)\<close> is the collation of the host's locale,
  which is not the code-point order of the strings (it ranks \<open>orders\<close> before \<open>Users\<close>).
  The collation compares sort keys: it is modelled by a key function \<open>ck\<close> from ids to
  byte strings, with \<open>a.localeCompare(b) < 0\<close> when \<open>ck a < ck b\<close> and \<open>= 0\<close> when the
  keys are equal. Every definition that sorts takes \<open>ck\<close> as a parameter and every theorem
  holds for every \<open>ck\<close>; \<open>Array.prototype.sort\<close> is stable, as \<open>sort_key\<close> is.

  A node's \<open>x\<close> and \<open>y\<close> are numbers once the node has been placed and \<open>undefined\<close>
  before: \<open>None\<close> is the unset coordinate.
\<close>

type_synonym ident = string
type_synonym collation = "ident \<Rightarrow> string"
type_synonym point = "real \<times> real"
type_synonym targets = "ident \<rightharpoonup> point"

datatype nodeType = Entity | Attribute | Relationship | OtherType

record bbox =
  minX :: real
  maxX :: real
  minY :: real
  maxY :: real
  width :: real
  height :: real
  centerX :: real
  centerY :: real

record node =
  nid :: ident
  nodeType :: nodeType
  model_x :: "real option"
  model_y :: "real option"
  parentEntity :: "ident option"
  getBBox :: bbox

record edge =
  source :: ident
  target :: ident

record graph =
  nodes :: "node list"
  edges :: "edge list"
  graph_width :: real
  graph_height :: real

text \<open>\<open>a || b\<close> on numbers: \<open>0\<close> is falsy (so is NaN, which the reals do not have).\<close>

definition js_or :: "real \<Rightarrow> real \<Rightarrow> real" where
  "js_or a b = (if a = 0 then b else a)"

text \<open>\<open>m.x || b\<close> on a coordinate: \<open>undefined\<close> is falsy too.\<close>

definition js_or_undef :: "real option \<Rightarrow> real \<Rightarrow> real" where
  "js_or_undef a b = (case a of None \<Rightarrow> b | Some v \<Rightarrow> js_or v b)"


text \<open>\<open>Math.hypot(dx, dy)\<close>.\<close>

definition hypot :: "real \<Rightarrow> real \<Rightarrow> real" where
  "hypot dx dy = sqrt (dx * dx + dy * dy)"

text \<open>\<open>getRadius\<close> (utils.js 55-59, repeated in forceAlignLayout.js 54-57 and
  arrangeLayout.js 37-40): half the diagonal of the bounding box.\<close>

definition getRadius :: "node \<Rightarrow> real" where
  "getRadius n =
     sqrt (width (getBBox n) * width (getBBox n) + height (getBBox n) * height (getBBox n)) / 2"

text \<open>\<open>graph.findById(id)\<close>, and \<open>nodes.find(nn => nn.id === id)\<close> of the initial
  placement: the first node carrying the id.\<close>

definition findById :: "node list \<Rightarrow> ident \<Rightarrow> node option" where
  "findById ns i = find (\<lambda>n. nid n = i) ns"

section \<open>Undirected adjacency\<close>

text \<open>
  \<open>adj\<close> is a JavaScript \<open>Map\<close> from an id to a \<open>Set\<close> of ids. Both keep insertion
  order, and force-align iterates the sets in that order, so the map is an association
  list (keys in insertion order) and each set is a duplicate-free list (elements in
  insertion order).
\<close>

type_synonym adjacency = "(ident \<times> ident list) list"

definition set_add :: "ident list \<Rightarrow> ident \<Rightarrow> ident list" where
  "set_add s v = (if v \<in> set s then s else s @ [v])"

definition ensure_key :: "ident \<Rightarrow> adjacency \<Rightarrow> adjacency" where
  "ensure_key k adj = (case map_of adj k of None \<Rightarrow> adj @ [(k, [])] | Some s \<Rightarrow> adj)"

definition add_neighbour :: "ident \<Rightarrow> ident \<Rightarrow> adjacency \<Rightarrow> adjacency" where
  "add_neighbour k v adj = map (\<lambda>(k', s). if k' = k then (k', set_add s v) else (k', s)) adj"

text \<open>One edge (componentSpread 33-37, initialLayout 43-47, forceAlignLayout 69-72):
  \<^verbatim>\<open>if (!adj.has(source)) adj.set(source, new Set());
  if (!adj.has(target)) adj.set(target, new Set());
  adj.get(source).add(target); adj.get(target).add(source);\<close>\<close>

definition add_edge :: "adjacency \<Rightarrow> edge \<Rightarrow> adjacency" where
  "add_edge adj e =
     add_neighbour (target e) (source e)
       (add_neighbour (source e) (target e)
          (ensure_key (target e) (ensure_key (source e) adj)))"

definition build_adj :: "edge list \<Rightarrow> adjacency" where
  "build_adj es = foldl add_edge [] es"

text \<open>Every id that occurs in some neighbour set.\<close>

definition adj_nodes :: "adjacency \<Rightarrow> ident set" where
  "adj_nodes adj = (\<Union>(k, s) \<in> set adj. set s)"

section \<open>Connected components by a depth-first stack\<close>

text \<open>
  The same loop occurs in initialLayout.js 50-73, in the component spread
  (part\_001 40-64) and in forceAlignLayout.js 77-99:
  \<^verbatim>\<open>const stack = [id]; const comp = []; visited.add(id);
  while (stack.length) {
      const cur = stack.pop();
      comp.push(cur);
      const neighbors = adj.get(cur);
      if (!neighbors) continue;
      neighbors.forEach(nb => { if (!visited.has(nb)) { visited.add(nb); stack.push(nb); } });
  }\<close>
  The first two sort the neighbours (\<open>Array.from(neighbors).sort(localeCompare)\<close>) before
  the \<open>forEach\<close>; force-align iterates the set as it is. The argument \<open>srt\<close> selects
  between the two: \<open>Some ck\<close> sorts by the collation key \<open>ck\<close>, \<open>None\<close> does not sort. The stack is held top first: \<open>push\<close> is \<open>#\<close>, \<open>pop\<close> takes the head. The
  source's \<open>comp\<close> is written \<open>cmp\<close> (\<open>comp\<close> is function composition in HOL).
\<close>

fun visit :: "ident \<Rightarrow> ident set \<times> ident list \<Rightarrow> ident set \<times> ident list" where
  "visit nb (visited, stack) =
     (if nb \<in> visited then (visited, stack) else (insert nb visited, nb # stack))"

definition neighbour_order :: "collation option \<Rightarrow> ident list \<Rightarrow> ident list" where
  "neighbour_order srt neighbors = (case srt of None \<Rightarrow> neighbors | Some ck \<Rightarrow> sort_key ck neighbors)"

lemma set_neighbour_order: "set (neighbour_order srt neighbors) = set neighbors"
  by (simp add: neighbour_order_def split: option.splits)

lemma visit_fold_measure:
  assumes "finite U" and "set nbs \<subseteq> U"
  shows "card (U - fst (fold visit nbs (visited, stack))) + length (snd (fold visit nbs (visited, stack)))
         = card (U - visited) + length stack"
  using assms(2)
proof (induction nbs arbitrary: visited stack)
  case Nil
  then show ?case by simp
next
  case (Cons nb nbs)
  show ?case
  proof (cases "nb \<in> visited")
    case True
    with Cons show ?thesis by simp
  next
    case False
    from Cons.prems have nbU: "nb \<in> U" by simp
    have "card (U - insert nb visited) + length (nb # stack) = card (U - visited) + length stack"
    proof -
      have "U - insert nb visited = (U - visited) - {nb}" by auto
      moreover have "nb \<in> U - visited" using nbU False by simp
      moreover have "finite (U - visited)" using assms(1) by simp
      ultimately have "card (U - insert nb visited) = card (U - visited) - 1" by simp
      moreover have "card (U - visited) > 0"
        using \<open>nb \<in> U - visited\<close> \<open>finite (U - visited)\<close> card_gt_0_iff by blast
      ultimately show ?thesis by simp
    qed
    moreover have "card (U - fst (fold visit nbs (insert nb visited, nb # stack)))
          + length (snd (fold visit nbs (insert nb visited, nb # stack)))
          = card (U - insert nb visited) + length (nb # stack)"
      using Cons.IH[of "insert nb visited" "nb # stack"] Cons.prems by simp
    ultimately show ?thesis using False by simp
  qed
qed

lemma finite_adj_nodes: "finite (adj_nodes adj)"
  by (auto simp: adj_nodes_def)

lemma map_of_adj_nodes: "map_of adj k = Some s \<Longrightarrow> set s \<subseteq> adj_nodes adj"
  by (auto simp: adj_nodes_def dest: map_of_SomeD)

function dfs :: "collation option \<Rightarrow> adjacency \<Rightarrow> ident set \<Rightarrow> ident list \<Rightarrow> ident list
                  \<Rightarrow> ident set \<times> ident list" where
  "dfs srt adj visited [] cmp = (visited, cmp)"
| "dfs srt adj visited (cur # stack) cmp =
     (case map_of adj cur of
        None \<Rightarrow> dfs srt adj visited stack (cmp @ [cur])
      | Some neighbors \<Rightarrow>
          dfs srt adj (fst (fold visit (neighbour_order srt neighbors) (visited, stack)))
                      (snd (fold visit (neighbour_order srt neighbors) (visited, stack)))
                      (cmp @ [cur]))"
  by pat_completeness auto
termination
proof (relation "measure (\<lambda>(srt, adj, visited, stack, cmp).
                    card (adj_nodes adj - visited) + length stack)", goal_cases)
  case 1
  then show ?case by simp
next
  case (2 srt adj visited cur stack cmp)
  then show ?case by simp
next
  case (3 srt adj visited cur stack cmp neighbors)
  have "set (neighbour_order srt neighbors) \<subseteq> adj_nodes adj"
    using map_of_adj_nodes[OF 3] by (simp add: set_neighbour_order)
  from visit_fold_measure[OF finite_adj_nodes this, of visited stack]
  show ?case by simp
qed

text \<open>The outer \<open>forEach\<close> over the start ids: an id already visited is skipped, any
  other starts a new component.\<close>

fun components_from :: "collation option \<Rightarrow> adjacency \<Rightarrow> ident list \<Rightarrow> ident set \<Rightarrow> ident list list" where
  "components_from srt adj [] visited = []"
| "components_from srt adj (i # rest) visited =
     (if i \<in> visited then components_from srt adj rest visited
      else (case dfs srt adj (insert i visited) [i] [] of
              (visited', cmp) \<Rightarrow> cmp # components_from srt adj rest visited'))"

section \<open>Component spread\<close>

text \<open>
  \<open>spreadDisconnectedComponents\<close> (part\_001 18-140). The start ids are the node ids
  sorted by \<open>localeCompare\<close>; the component holds the node found for each popped id
  (\<open>if (curNode) comp.push(curNode)\<close>), and empty components are dropped
  (\<open>if (comp.length) components.push(comp)\<close>).
\<close>

definition sorted_components :: "collation \<Rightarrow> node list \<Rightarrow> edge list \<Rightarrow> node list list" where
  "sorted_components ck ns es =
     filter (\<lambda>c. c \<noteq> [])
       (map (List.map_filter (findById ns))
            (components_from (Some ck) (build_adj es) (map nid (sort_key (\<lambda>n. ck (nid n)) ns)) {}))"

record meta =
  comp_nodes :: "node list"
  radius :: real
  center :: point

text \<open>\<open>Math.min\<close> and \<open>Math.max\<close> folded over a component, started from
  \<open>Infinity\<close> and \<open>-Infinity\<close>: a component is never empty, so the infinities never
  survive the first member, and the fold starts there.\<close>

definition minimum :: "real list \<Rightarrow> real" where
  "minimum xs = fold min (tl xs) (hd xs)"

definition maximum :: "real list \<Rightarrow> real" where
  "maximum xs = fold max (tl xs) (hd xs)"

definition comp_meta :: "node list \<Rightarrow> meta" where
  "comp_meta c =
     (let minX = minimum (map (\<lambda>n. minX (getBBox n)) c);
          maxX = maximum (map (\<lambda>n. maxX (getBBox n)) c);
          minY = minimum (map (\<lambda>n. minY (getBBox n)) c);
          maxY = maximum (map (\<lambda>n. maxY (getBBox n)) c);
          cx = sum_list (map (\<lambda>n. centerX (getBBox n)) c);
          cy = sum_list (map (\<lambda>n. centerY (getBBox n)) c);
          width = max 40 (maxX - minX);
          height = max 40 (maxY - minY);
          radius = sqrt (width * width + height * height) / 2 + 40
      in \<lparr>comp_nodes = c, radius = radius,
          center = (cx / real (length c), cy / real (length c))\<rparr>)"

definition gap :: real where
  "gap = 50"

definition totalSpan :: "meta list \<Rightarrow> real" where
  "totalSpan ms = foldl (\<lambda>sum c. sum + radius c * 2 + gap) 0 ms"

text \<open>part\_001 102-109:
  \<^verbatim>\<open>Math.min(Math.max(totalSpan / (2 * Math.PI),
                    Math.max(...compMeta.map(c => c.radius)) + gap + 40, 240), 520)\<close>\<close>

definition orbitRadius :: "meta list \<Rightarrow> real" where
  "orbitRadius ms =
     min (max (max (totalSpan ms / (2 * pi)) (maximum (map radius ms) + gap + 40)) 240) 520"






text \<open>The orbit radius as the specification words it:
  \<open>clamp(totalSpan / 2\<pi>, max-component-radius + gap + 40, 520)\<close>, the larger of the
  first two capped at 520.\<close>

definition spec_orbitRadius :: "meta list \<Rightarrow> real" where
  "spec_orbitRadius ms =
     min (max (totalSpan ms / (2 * pi)) (maximum (map radius ms) + gap + 40)) 520"


definition spread_compMeta :: "collation \<Rightarrow> graph \<Rightarrow> meta list" where
  "spread_compMeta ck g = map comp_meta (sorted_components ck (nodes g) (edges g))"

section \<open>Concrete inputs\<close>

text \<open>Constructors for the concrete graphs on which the theorems below are instantiated:
  a bounding box from its corner and size, and a node from its model fields.\<close>

definition box :: "real \<Rightarrow> real \<Rightarrow> real \<Rightarrow> real \<Rightarrow> bbox" where
  "box x0 y0 w h =
     \<lparr>minX = x0, maxX = x0 + w, minY = y0, maxY = y0 + h, width = w, height = h,
      centerX = x0 + w / 2, centerY = y0 + h / 2\<rparr>"

definition mk_node :: "ident \<Rightarrow> nodeType \<Rightarrow> real \<Rightarrow> real \<Rightarrow> ident option \<Rightarrow> bbox \<Rightarrow> node" where
  "mk_node i t x y p b =
     \<lparr>nid = i, nodeType = t, model_x = Some x, model_y = Some y, parentEntity = p, getBBox = b\<rparr>"

text \<open>A node that has not been placed yet: both coordinates unset.\<close>

definition mk_unplaced :: "ident \<Rightarrow> nodeType \<Rightarrow> ident option \<Rightarrow> bbox \<Rightarrow> node" where
  "mk_unplaced i t p b =
     \<lparr>nid = i, nodeType = t, model_x = None, model_y = None, parentEntity = p, getBBox = b\<rparr>"

definition mk_edge :: "ident \<Rightarrow> ident \<Rightarrow> edge" where
  "mk_edge s t = \<lparr>source = s, target = t\<rparr>"

text \<open>Two unconnected entities with 60 by 80 boxes (radius 50 + 40 = 90 each).\<close>

definition two_entities :: graph where
  "two_entities =
     \<lparr>nodes = [mk_node ''a'' Entity 30 40 None (box 0 0 60 80),
               mk_node ''b'' Entity 230 40 None (box 200 0 60 80)],
      edges = [], graph_width = 1200, graph_height = 800\<rparr>"


section \<open>Properties of the depth-first decomposition\<close>
















section \<open>Component spread: the orbit radius\<close>

lemma sqrt_60_80: "sqrt (60 * 60 + 80 * 80) = 100"
proof -
  have "sqrt (60 * 60 + 80 * 80) = sqrt (100\<^sup>2)" by simp
  then show ?thesis by simp
qed

lemma two_entities_components:
  "sorted_components ck (nodes two_entities) (edges two_entities)
     = (if ck ''a'' \<le> ck ''b''
        then [[mk_node ''a'' Entity 30 40 None (box 0 0 60 80)],
              [mk_node ''b'' Entity 230 40 None (box 200 0 60 80)]]
        else [[mk_node ''b'' Entity 230 40 None (box 200 0 60 80)],
              [mk_node ''a'' Entity 30 40 None (box 0 0 60 80)]])"
  by (simp add: two_entities_def sorted_components_def build_adj_def mk_node_def findById_def
      List.map_filter_simps)

lemma radius_single_60_80: "radius (comp_meta [mk_node i t x y p (box x0 y0 60 80)]) = 90"
  by (simp add: comp_meta_def mk_node_def box_def minimum_def maximum_def Let_def sqrt_60_80)

text \<open>
  C8 (as stated): with at least two components the orbit radius equals
  \<open>clamp(totalSpan / 2\<pi>, maxComponentRadius + gap + 40, 520)\<close>. The code takes the maximum
  with a third bound, 240, before capping. For two unconnected entities of radius 90
  the total span is 460, the stated formula gives 180 and the code gives 240, in
  whichever order the collation puts the two.
\<close>

theorem orbitRadius_counterexample:
  "\<forall>ck. orbitRadius (spread_compMeta ck two_entities) = 240 \<and>
        spec_orbitRadius (spread_compMeta ck two_entities) = 180"
proof -
  have "460 \<le> 360 * pi" using pi_ge_two by simp
  then have "460 / (2 * pi) \<le> (180::real)" by (simp add: field_simps)
  then show ?thesis
    by (simp add: spread_compMeta_def two_entities_components orbitRadius_def
        spec_orbitRadius_def totalSpan_def radius_single_60_80 gap_def maximum_def)
qed

text \<open>
  C8 (amended): the orbit radius of the component spread is the stated clamp raised to
  the floor 240; it always lies between 240 and 520, and it coincides with the stated
  clamp exactly when that is at least 240.
\<close>

theorem orbitRadius_floor:
  "orbitRadius ms = max 240 (spec_orbitRadius ms) \<and>
   240 \<le> orbitRadius ms \<and> orbitRadius ms \<le> 520 \<and>
   (orbitRadius ms = spec_orbitRadius ms) = (240 \<le> spec_orbitRadius ms)"
  by (simp add: orbitRadius_def spec_orbitRadius_def min_def max_def)

section \<open>Component spread: the transform is rigid\<close>







section \<open>Arrange layout: satellites per free segment\<close>

text \<open>
  Step 5 of \<open>arrangeLayout\<close> (arrangeLayout.js 257-333). \<open>avoidAngles\<close> holds the
  normalised angles from an entity towards the other entity of each of its two-entity
  relationships; a segment is \<open>{start, end}\<close>.
\<close>

type_synonym segment = "real \<times> real"

definition gapAngle :: real where "gapAngle = 0.35"
definition halfGap :: real where "halfGap = gapAngle / 2"

definition seg_len :: "segment \<Rightarrow> real" where
  "seg_len s = snd s - fst s"

text \<open>arrangeLayout.js 270-284: the free segments between consecutive avoided angles,
  each shortened by \<open>halfGap\<close> at both ends; the last one wraps around by \<open>2\<pi>\<close>.\<close>

definition free_segments :: "real list \<Rightarrow> segment list" where
  "free_segments avoidAngles =
     (if avoidAngles = [] then [(0, pi * 2)]
      else let sortedAngles = sort avoidAngles;
               total = pi * 2;
               n = length sortedAngles
           in concat (map (\<lambda>i.
                 let curr = sortedAngles ! i;
                     next = sortedAngles ! ((i + 1) mod n) + (if i = n - 1 then total else 0);
                     start = curr + halfGap;
                     end = next - halfGap
                 in if end > start then [(start, end)] else []) [0..<n]))"

text \<open>arrangeLayout.js 286-289: with no free angle left the whole circle is used.\<close>

definition usable_segments :: "real list \<Rightarrow> segment list" where
  "usable_segments avoidAngles =
     (let segments = free_segments avoidAngles;
          totalFree = foldl (\<lambda>sum s. sum + (snd s - fst s)) 0 segments
      in if totalFree \<le> 0 then [(0, pi * 2)] else segments)"

text \<open>arrangeLayout.js 306-310:
  \<^verbatim>\<open>segCounts = segments.map(s => Math.max(0, Math.round(totalCount * (s.end - s.start) / totalAngle)))\<close>
  \<open>Math.round\<close> rounds half up, as \<open>round\<close> does.\<close>

definition rounded_counts :: "segment list \<Rightarrow> int \<Rightarrow> int list" where
  "rounded_counts segments totalCount =
     (let totalAngle = foldl (\<lambda>sum s. sum + (snd s - fst s)) 0 segments
      in map (\<lambda>s. max 0 (round (real_of_int totalCount * (snd s - fst s) / totalAngle))) segments)"

text \<open>arrangeLayout.js 314-321: the index of the first segment of greatest length;
  \<open>maxLen\<close> starts at \<open>-Infinity\<close>, here \<open>None\<close>.\<close>

fun longest_scan :: "segment list \<Rightarrow> nat \<Rightarrow> nat \<times> real option \<Rightarrow> nat \<times> real option" where
  "longest_scan [] idx acc = acc"
| "longest_scan (s # segments) idx (maxIdx, maxLen) =
     longest_scan segments (idx + 1)
       (if (case maxLen of None \<Rightarrow> True | Some l \<Rightarrow> snd s - fst s > l)
        then (idx, Some (snd s - fst s)) else (maxIdx, maxLen))"

definition longest_index :: "segment list \<Rightarrow> nat" where
  "longest_index segments = fst (longest_scan segments 0 (0, None))"

text \<open>arrangeLayout.js 313-324: \<open>while (allocated < totalCount)\<close> add one to the longest
  segment.\<close>

function grow :: "segment list \<Rightarrow> int list \<Rightarrow> int \<Rightarrow> int \<Rightarrow> int list \<times> int" where
  "grow segments segCounts allocated totalCount =
     (if allocated < totalCount
      then let maxIdx = longest_index segments
           in grow segments (segCounts[maxIdx := segCounts ! maxIdx + 1]) (allocated + 1) totalCount
      else (segCounts, allocated))"
  by pat_completeness auto
termination
  by (relation "measure (\<lambda>(segments, segCounts, allocated, totalCount). nat (totalCount - allocated))") auto

declare grow.simps [simp del]

text \<open>arrangeLayout.js 325-333: \<open>while (allocated > totalCount)\<close> take one from the
  last segment with a positive count. The inner \<open>for\<close> runs from the last index down;
  when it finds no positive count nothing changes and the \<open>while\<close> would spin, so the
  loop is a partial function whose value \<open>None\<close> stands for not returning.\<close>

fun dec_first_positive :: "int list \<Rightarrow> int list option" where
  "dec_first_positive [] = None"
| "dec_first_positive (c # cs) =
     (if c > 0 then Some ((c - 1) # cs) else map_option ((#) c) (dec_first_positive cs))"

definition dec_last_positive :: "int list \<Rightarrow> int list option" where
  "dec_last_positive segCounts = map_option rev (dec_first_positive (rev segCounts))"

partial_function (option) shrink :: "int list \<Rightarrow> int \<Rightarrow> int \<Rightarrow> int list option" where
  "shrink segCounts allocated totalCount =
     (if allocated > totalCount
      then (case dec_last_positive segCounts of
              Some segCounts' \<Rightarrow> shrink segCounts' (allocated - 1) totalCount
            | None \<Rightarrow> shrink segCounts allocated totalCount)
      else Some segCounts)"

definition allocate :: "segment list \<Rightarrow> int \<Rightarrow> int list option" where
  "allocate segments totalCount =
     (let segCounts = rounded_counts segments totalCount;
          allocated = foldl (\<lambda>sum c. sum + c) 0 segCounts
      in case grow segments segCounts allocated totalCount of
           (segCounts', allocated') \<Rightarrow> shrink segCounts' allocated' totalCount)"

definition arrange_segCounts :: "real list \<Rightarrow> nat \<Rightarrow> int list option" where
  "arrange_segCounts avoidAngles totalCount = allocate (usable_segments avoidAngles) (int totalCount)"



lemma foldl_plus_sum: "foldl (\<lambda>sum c. sum + f c) a xs = a + sum_list (map f xs)"
  for a :: "'a::comm_monoid_add"
  by (induction xs arbitrary: a) (simp_all add: add.assoc)

lemma longest_scan_bound:
  "fst acc < idx \<Longrightarrow> fst (longest_scan segments idx acc) < idx + length segments"
proof (induction segments idx acc rule: longest_scan.induct)
  case (1 idx acc)
  then show ?case by simp
next
  case (2 s segments idx maxIdx maxLen)
  let ?acc = "if (case maxLen of None \<Rightarrow> True | Some l \<Rightarrow> snd s - fst s > l)
        then (idx, Some (snd s - fst s)) else (maxIdx, maxLen)"
  have "fst ?acc < idx + 1" using "2.prems" by simp
  from "2.IH"[OF this] show ?case by simp
qed

lemma longest_index_bound: "segments \<noteq> [] \<Longrightarrow> longest_index segments < length segments"
proof (cases segments)
  case Nil
  then show "segments \<noteq> [] \<Longrightarrow> ?thesis" by simp
next
  case (Cons s rest)
  have "fst (longest_scan rest 1 (0, Some (snd s - fst s))) < 1 + length rest"
    by (rule longest_scan_bound) simp
  then show ?thesis using Cons by (simp add: longest_index_def)
qed

lemma sum_list_bump: "i < length (cs::int list) \<Longrightarrow> sum_list (cs[i := cs ! i + 1]) = sum_list cs + 1"
proof (induction cs arbitrary: i)
  case Nil
  then show ?case by simp
next
  case (Cons c cs)
  then show ?case by (cases i) simp_all
qed

lemma grow_props:
  assumes "segments \<noteq> []" "length segCounts = length segments" "sum_list segCounts = allocated"
    "\<forall>c \<in> set segCounts. 0 \<le> c"
  shows "case grow segments segCounts allocated totalCount of (cs, al) \<Rightarrow>
           sum_list cs = al \<and> al = max allocated totalCount \<and> length cs = length segments
           \<and> (\<forall>c \<in> set cs. 0 \<le> c)"
  using assms
proof (induction segments segCounts allocated totalCount rule: grow.induct)
  case (1 segments segCounts allocated totalCount)
  show ?case
  proof (cases "allocated < totalCount")
    case False
    then show ?thesis using 1 by (subst grow.simps) simp
  next
    case True
    let ?i = "longest_index segments"
    have i: "?i < length segCounts" using longest_index_bound 1(2,3) by simp
    have a: "sum_list (segCounts[?i := segCounts ! ?i + 1]) = allocated + 1"
      using sum_list_bump[OF i] 1(4) by simp
    have b: "\<forall>c \<in> set (segCounts[?i := segCounts ! ?i + 1]). 0 \<le> c"
    proof
      fix c assume "c \<in> set (segCounts[?i := segCounts ! ?i + 1])"
      then have "c \<in> insert (segCounts ! ?i + 1) (set segCounts)" using set_update_subset_insert by fast
      moreover have "0 \<le> segCounts ! ?i" using 1(5) i by simp
      ultimately show "0 \<le> c" using 1(5) by auto
    qed
    from "1.IH"[OF True refl "1.prems"(1) _ a b] "1.prems"(2) True
    show ?thesis by (subst grow.simps) (simp add: Let_def max_def)
  qed
qed

lemma dec_first_positive_props:
  "\<forall>c \<in> set cs. 0 \<le> c \<Longrightarrow> 0 < sum_list cs \<Longrightarrow>
     \<exists>cs'. dec_first_positive cs = Some cs' \<and> sum_list cs' = sum_list cs - 1
           \<and> length cs' = length cs \<and> (\<forall>c \<in> set cs'. 0 \<le> c)"
proof (induction cs)
  case Nil
  then show ?case by simp
next
  case (Cons c cs)
  show ?case
  proof (cases "c > 0")
    case True
    then show ?thesis using Cons.prems by auto
  next
    case False
    then have "c = 0" using Cons.prems(1) by simp
    then have "0 < sum_list cs" using Cons.prems(2) by simp
    with Cons.IH Cons.prems(1) obtain cs' where "dec_first_positive cs = Some cs'"
      "sum_list cs' = sum_list cs - 1" "length cs' = length cs" "\<forall>c \<in> set cs'. 0 \<le> c" by auto
    then show ?thesis using \<open>c = 0\<close> by simp
  qed
qed

lemma dec_last_positive_props:
  assumes "\<forall>c \<in> set cs. 0 \<le> c" "0 < sum_list cs"
  shows "\<exists>cs'. dec_last_positive cs = Some cs' \<and> sum_list cs' = sum_list cs - 1
           \<and> length cs' = length cs \<and> (\<forall>c \<in> set cs'. 0 \<le> c)"
proof -
  from dec_first_positive_props[of "rev cs"] assms obtain r where
    "dec_first_positive (rev cs) = Some r" "sum_list r = sum_list cs - 1" "length r = length cs"
    "\<forall>c \<in> set r. 0 \<le> c" by (auto simp: sum_list_rev)
  then show ?thesis by (simp add: dec_last_positive_def sum_list_rev)
qed

lemma shrink_props:
  assumes "\<forall>c \<in> set cs. 0 \<le> c" "sum_list cs = allocated" "0 \<le> totalCount" "totalCount \<le> allocated"
  shows "\<exists>cs'. shrink cs allocated totalCount = Some cs' \<and> sum_list cs' = totalCount
           \<and> length cs' = length cs \<and> (\<forall>c \<in> set cs'. 0 \<le> c)"
  using assms
proof (induction "nat (allocated - totalCount)" arbitrary: cs allocated)
  case 0
  then have "allocated = totalCount" by simp
  then show ?case using 0 by (subst shrink.simps) simp
next
  case (Suc k)
  then have gt: "allocated > totalCount" by simp
  then have "0 < sum_list cs" using Suc.prems by simp
  from dec_last_positive_props[OF Suc.prems(1) this] obtain cs1 where c1:
    "dec_last_positive cs = Some cs1" "sum_list cs1 = sum_list cs - 1" "length cs1 = length cs"
    "\<forall>c \<in> set cs1. 0 \<le> c" by blast
  have "k = nat (allocated - 1 - totalCount)" using Suc(2) by simp
  from Suc(1)[OF this c1(4)] c1(2) Suc.prems gt obtain cs' where
    "shrink cs1 (allocated - 1) totalCount = Some cs'" "sum_list cs' = totalCount"
    "length cs' = length cs1" "\<forall>c \<in> set cs'. 0 \<le> c" by auto
  then show ?case using gt c1(1,3) by (subst shrink.simps) simp
qed

lemma usable_segments_nonempty: "usable_segments avoidAngles \<noteq> []"
proof -
  have "free_segments avoidAngles = [] \<Longrightarrow> usable_segments avoidAngles = [(0, pi * 2)]"
    by (simp add: usable_segments_def)
  then show ?thesis by (auto simp: usable_segments_def Let_def)
qed

text \<open>
  Largest-remainder rounding as the specification words it: floor each segment's
  proportional share, then hand out the remaining units by descending fractional part
  (a stable sort, so equal fractions keep their order).
\<close>

definition spec_largest_remainder :: "real list \<Rightarrow> int \<Rightarrow> int list" where
  "spec_largest_remainder lens totalCount =
     (let totalLen = sum_list lens;
          ideal = map (\<lambda>l. l / totalLen * real_of_int totalCount) lens;
          base = map floor ideal;
          fraction = map (\<lambda>x. x - real_of_int \<lfloor>x\<rfloor>) ideal;
          remaining = totalCount - sum_list base;
          order = sort_key (\<lambda>i. - (fraction ! i)) [0..<length lens]
      in fold (\<lambda>i cs. cs[order ! (i mod length order) := cs ! (order ! (i mod length order)) + 1])
              [0..<nat remaining] base)"

lemma pi_ge_3: "3 \<le> pi"
proof -
  have "sin (pi / 6) \<le> pi / 6" by (rule sin_x_le_x) simp
  then show ?thesis by (simp add: sin_30)
qed

lemma three_avoid_segments:
  "usable_segments [0, 1.15, 2.3] = [(0.175, 0.975), (1.325, 2.125), (2.475, pi * 2 - 0.175)]"
proof -
  have s: "sort [0, 1.15, 2.3::real] = [0, 1.15, 2.3]" by simp
  have u: "[0..<3] = [0, 1, 2]" by (simp add: upt_rec)
  have p: "(2.65::real) < pi * 2" using pi_ge_3 by simp
  have f: "free_segments [0, 1.15, 2.3] = [(0.175, 0.975), (1.325, 2.125), (2.475, pi * 2 - 0.175)]"
    using p by (simp add: free_segments_def s u Let_def halfGap_def gapAngle_def)
  have "foldl (\<lambda>sum s. sum + (snd s - fst s)) 0
          [(0.175, 0.975), (1.325, 2.125), (2.475, pi * 2 - 0.175)] = pi * 2 - 1.05"
    by simp
  then show ?thesis unfolding usable_segments_def f Let_def using p by simp
qed

lemma round_eq: "real_of_int k - 1/2 \<le> x \<Longrightarrow> x < real_of_int k + 1/2 \<Longrightarrow> round x = k"
  unfolding round_def by (rule floor_unique) auto

lemma round_0: "0 \<le> x \<Longrightarrow> x < 1/2 \<Longrightarrow> round (x::real) = 0"
  using round_eq[of 0 x] by simp

lemma round_2: "3/2 \<le> x \<Longrightarrow> x < 5/2 \<Longrightarrow> round (x::real) = 2"
  using round_eq[of 2 x] by simp

lemma floor_0: "0 \<le> x \<Longrightarrow> x < 1 \<Longrightarrow> \<lfloor>x::real\<rfloor> = 0"
  by (rule floor_unique) auto

lemma floor_2: "2 \<le> x \<Longrightarrow> x < 3 \<Longrightarrow> \<lfloor>x::real\<rfloor> = 2"
  by (rule floor_unique) auto

lemma three_avoid_shares:
  defines "T \<equiv> pi * 2 - 1.05"
  shows "4.95 \<le> T" and "T < 6.95"
    and "round (3 * 0.8 / T) = 0" and "round (3 * (pi * 2 - 2.65) / T) = 2"
    and "\<lfloor>0.8 / T * 3\<rfloor> = 0" and "\<lfloor>(pi * 2 - 2.65) / T * 3\<rfloor> = 2"
proof -
  show a: "4.95 \<le> T" using pi_ge_3 by (simp add: T_def)
  show b: "T < 6.95" using pi_less_4 by (simp add: T_def)
  have Tpos: "0 < T" using a by simp
  have e: "pi * 2 - 2.65 = T - 1.6" by (simp add: T_def)
  have "3 * 0.8 / T < 1/2" using a Tpos by (simp add: field_simps)
  moreover have "0 \<le> 3 * 0.8 / T" using Tpos by simp
  ultimately show "round (3 * 0.8 / T) = 0" by (intro round_0)
  have "3 * (T - 1.6) / T < 5/2" using Tpos b by (simp add: field_simps)
  moreover have "3/2 \<le> 3 * (T - 1.6) / T" using Tpos a by (simp add: field_simps)
  ultimately show "round (3 * (pi * 2 - 2.65) / T) = 2" unfolding e by (intro round_2)
  have "0.8 / T * 3 < 1" using a Tpos by (simp add: field_simps)
  moreover have "0 \<le> 0.8 / T * 3" using Tpos by simp
  ultimately show "\<lfloor>0.8 / T * 3\<rfloor> = 0" by (intro floor_0)
  have "(T - 1.6) / T * 3 < 3" using Tpos by (simp add: field_simps)
  moreover have "2 \<le> (T - 1.6) / T * 3" using Tpos a by (simp add: field_simps)
  ultimately show "\<lfloor>(pi * 2 - 2.65) / T * 3\<rfloor> = 2" unfolding e by (intro floor_2)
qed


lemma three_avoid_rounded:
  "rounded_counts [(0.175, 0.975), (1.325, 2.125), (2.475, pi * 2 - 0.175)] 3 = [0, 0, 2]"
proof -
  have t: "foldl (\<lambda>sum s. sum + (snd s - fst s)) 0
          [(0.175, 0.975), (1.325, 2.125), (2.475, pi * 2 - 0.175)] = pi * 2 - 1.05"
    by simp
  have l1: "(0.975::real) - 0.175 = 0.8" and l2: "(2.125::real) - 1.325 = 0.8"
    and l3: "pi * 2 - 0.175 - 2.475 = pi * 2 - 2.65" by simp_all
  show ?thesis
    unfolding rounded_counts_def Let_def t list.map fst_conv snd_conv l1 l2 l3 of_int_numeral
    by (simp only: three_avoid_shares max_def) simp
qed


lemma three_avoid_longest:
  "longest_index [(0.175, 0.975), (1.325, 2.125), (2.475, pi * 2 - 0.175)] = 2"
proof -
  have "(0.8::real) < pi * 2 - 2.65" using pi_ge_3 by simp
  then show ?thesis by (simp add: longest_index_def)
qed

lemma three_avoid_arrange: "arrange_segCounts [0, 1.15, 2.3] 3 = Some [0, 0, 3]"
proof -
  define segs :: "segment list"
    where "segs = [(0.175, 0.975), (1.325, 2.125), (2.475, pi * 2 - 0.175)]"
  have l: "longest_index segs = 2" unfolding segs_def by (rule three_avoid_longest)
  have r: "rounded_counts segs 3 = [0, 0, 2]" unfolding segs_def by (rule three_avoid_rounded)
  have g: "grow segs [0, 0, 2] 2 3 = ([0, 0, 3], 3)"
    by (subst grow.simps, simp add: l Let_def, subst grow.simps, simp)
  have s: "shrink [0, 0, 3] 3 3 = Some [0, 0, 3]" by (subst shrink.simps) simp
  show ?thesis
    unfolding arrange_segCounts_def allocate_def three_avoid_segments segs_def[symmetric]
    by (simp add: r g s)
qed

lemma three_avoid_largest_remainder:
  "spec_largest_remainder (map seg_len (usable_segments [0, 1.15, 2.3])) 3 = [1, 0, 2]"
proof -
  define T where "T = pi * 2 - 1.05"
  have lens: "map seg_len (usable_segments [0, 1.15, 2.3]) = [0.8, 0.8, pi * 2 - 2.65]"
    unfolding three_avoid_segments by (simp add: seg_len_def)
  have tl: "sum_list [0.8, 0.8, pi * 2 - 2.65] = T" by (simp add: T_def)
  have fl: "\<lfloor>0.8 / T * 3\<rfloor> = 0" "\<lfloor>(pi * 2 - 2.65) / T * 3\<rfloor> = 2"
    unfolding T_def by (rule three_avoid_shares)+
  have T: "4.95 \<le> T" "T < 6.95" unfolding T_def by (rule three_avoid_shares)+
  have cmp: "(pi * 2 - 2.65) / T * 3 - 2 \<le> 0.8 / T * 3"
  proof -
    have e: "pi * 2 - 2.65 = T - 1.6" by (simp add: T_def)
    have "(T - 1.6) / T * 3 - 2 \<le> 0.8 / T * 3" using T by (simp add: field_simps)
    then show ?thesis unfolding e .
  qed
  define f1 where "f1 = 0.8 / T * 3"
  define f3 where "f3 = (pi * 2 - 2.65) / T * 3 - 2"
  have ord: "f3 \<le> f1" using cmp by (simp add: f1_def f3_def)
  have u: "[0..<3] = [0, 1, 2]" "[0..<1] = [0]" by (simp_all add: upt_rec)
  show ?thesis
    unfolding lens spec_largest_remainder_def tl Let_def
    apply (simp only: list.map of_int_numeral fl of_int_0 diff_zero)
    apply (fold f1_def f3_def)
    apply (simp add: u ord)
    done
qed


text \<open>
  C7 (as stated): the satellites are distributed by largest-remainder rounding. With
  three orbital satellites and two-entity relationships towards the angles 0, 1.15 and
  2.3 the free segments have lengths 0.8, 0.8 and \<open>2\<pi> - 2.65\<close>; the shares are about
  0.46, 0.46 and 2.08. The code rounds them to 0, 0, 2 and gives the missing satellite
  to the longest segment; largest-remainder rounding gives it to the first segment.
\<close>

theorem arrange_not_largest_remainder:
  "arrange_segCounts [0, 1.15, 2.3] 3 = Some [0, 0, 3] \<and>
   spec_largest_remainder (map seg_len (usable_segments [0, 1.15, 2.3])) 3 = [1, 0, 2]"
  using three_avoid_arrange three_avoid_largest_remainder by simp



section \<open>Arrange layout: what the allocation of step 5 is\<close>

text \<open>Taking \<open>e\<close> units from the front of a list of counts, emptying one count after
  the other; \<open>rev (drain e (rev cs))\<close> takes them from the last counts backwards.\<close>

fun drain :: "int \<Rightarrow> int list \<Rightarrow> int list" where
  "drain e [] = []"
| "drain e (c # cs) = (c - min c e) # drain (e - min c e) cs"

lemma grow_closed:
  assumes "longest_index segments < length segCounts"
  shows "grow segments segCounts allocated totalCount
         = (if allocated < totalCount
            then (segCounts[longest_index segments :=
                    segCounts ! longest_index segments + (totalCount - allocated)], totalCount)
            else (segCounts, allocated))"
  using assms
proof (induction segments segCounts allocated totalCount rule: grow.induct)
  case (1 segments segCounts allocated totalCount)
  let ?k = "longest_index segments"
  show ?case
  proof (cases "allocated < totalCount")
    case False
    then show ?thesis by (subst grow.simps) simp
  next
    case True
    let ?sc = "segCounts[?k := segCounts ! ?k + 1]"
    have k: "?k < length ?sc" using "1.prems" by simp
    note ih = "1.IH"[OF True refl k]
    have g: "grow segments segCounts allocated totalCount = grow segments ?sc (allocated + 1) totalCount"
      using True by (subst grow.simps) (simp add: Let_def)
    show ?thesis
    proof (cases "allocated + 1 < totalCount")
      case True
      have "?sc[?k := ?sc ! ?k + (totalCount - (allocated + 1))]
            = segCounts[?k := segCounts ! ?k + (totalCount - allocated)]"
        using "1.prems" by simp
      then show ?thesis unfolding g ih using True by simp
    next
      case False
      then have e: "totalCount = allocated + 1" using True by simp
      show ?thesis unfolding g ih unfolding e by simp
    qed
  qed
qed

lemma sum_list_add_at:
  "i < length (cs::int list) \<Longrightarrow> sum_list (cs[i := cs ! i + d]) = sum_list cs + d"
proof (induction cs arbitrary: i)
  case Nil
  then show ?case by simp
next
  case (Cons c cs)
  then show ?case by (cases i) simp_all
qed

lemma drain_zero: "\<forall>c \<in> set xs. 0 \<le> c \<Longrightarrow> drain 0 xs = xs"
  by (induction xs) simp_all

lemma dec_first_drain:
  assumes "\<forall>c \<in> set xs. 0 \<le> c" and "0 < e" and "e \<le> sum_list xs"
  shows "\<exists>xs'. dec_first_positive xs = Some xs' \<and> drain (e - 1) xs' = drain e xs"
  using assms(1,3)
proof (induction xs)
  case Nil
  then show ?case using assms(2) by simp
next
  case (Cons c cs)
  show ?case
  proof (cases "c > 0")
    case True
    have "min (c - 1) (e - 1) = min c e - 1" by simp
    then show ?thesis using True by simp
  next
    case False
    then have c: "c = 0" using Cons.prems(1) by simp
    then have "e \<le> sum_list cs" using Cons.prems(2) by simp
    with Cons.IH Cons.prems(1) obtain cs' where
      "dec_first_positive cs = Some cs'" "drain (e - 1) cs' = drain e cs" by auto
    then show ?thesis using c assms(2) by simp
  qed
qed

lemma shrink_closed:
  assumes "\<forall>c \<in> set cs. 0 \<le> c" "sum_list cs = allocated" "0 \<le> totalCount"
    "totalCount \<le> allocated"
  shows "shrink cs allocated totalCount = Some (rev (drain (allocated - totalCount) (rev cs)))"
  using assms
proof (induction "nat (allocated - totalCount)" arbitrary: cs allocated)
  case 0
  then have "allocated = totalCount" by simp
  then show ?case using 0 by (subst shrink.simps) (simp add: drain_zero)
next
  case (Suc k)
  then have gt: "allocated > totalCount" by simp
  then have pos: "0 < sum_list cs" "0 < allocated - totalCount"
    "allocated - totalCount \<le> sum_list (rev cs)"
    using Suc.prems by (simp_all add: sum_list_rev)
  have nn: "\<forall>c \<in> set (rev cs). 0 \<le> c" using Suc.prems(1) by simp
  from dec_first_drain[OF nn pos(2,3)] obtain xs' where x:
    "dec_first_positive (rev cs) = Some xs'"
    "drain (allocated - totalCount - 1) xs' = drain (allocated - totalCount) (rev cs)" by blast
  from dec_first_positive_props[OF nn] pos(1) x(1) have p:
    "sum_list xs' = sum_list cs - 1" "\<forall>c \<in> set xs'. 0 \<le> c" by (auto simp: sum_list_rev)
  have d: "dec_last_positive cs = Some (rev xs')" using x(1) by (simp add: dec_last_positive_def)
  have "k = nat (allocated - 1 - totalCount)" using Suc(2) by simp
  from Suc(1)[OF this, of "rev xs'"] p Suc.prems gt
  have "shrink (rev xs') (allocated - 1) totalCount
          = Some (rev (drain (allocated - 1 - totalCount) xs'))" by (simp add: sum_list_rev)
  moreover have "allocated - 1 - totalCount = allocated - totalCount - 1" by simp
  ultimately show ?case using gt d x(2) by (subst shrink.simps) simp
qed

lemma longest_scan_max:
  assumes "mi < length pre" and "l = seg_len (pre ! mi)"
    and "\<forall>j < length pre. seg_len (pre ! j) \<le> l" and "\<forall>j < mi. seg_len (pre ! j) < l"
  shows "(\<forall>j < length (pre @ rest).
            seg_len ((pre @ rest) ! j)
              \<le> seg_len ((pre @ rest) ! fst (longest_scan rest (length pre) (mi, Some l))))
       \<and> (\<forall>j < fst (longest_scan rest (length pre) (mi, Some l)).
            seg_len ((pre @ rest) ! j)
              < seg_len ((pre @ rest) ! fst (longest_scan rest (length pre) (mi, Some l))))
       \<and> fst (longest_scan rest (length pre) (mi, Some l)) < length (pre @ rest)"
  using assms
proof (induction rest arbitrary: pre mi l)
  case Nil
  then show ?case by simp
next
  case (Cons s rest)
  let ?pre = "pre @ [s]"
  have sl: "snd s - fst s = seg_len s" by (simp add: seg_len_def)
  have old: "\<And>j. j < length pre \<Longrightarrow> ?pre ! j = pre ! j" by (simp add: nth_append)
  have new: "?pre ! length pre = s" by simp
  have app: "pre @ s # rest = ?pre @ rest" by simp
  show ?case
  proof (cases "seg_len s > l")
    case True
    have a: "length pre < length ?pre" by simp
    have b: "seg_len s = seg_len (?pre ! length pre)" by simp
    have c: "\<forall>j < length ?pre. seg_len (?pre ! j) \<le> seg_len s"
    proof (intro allI impI)
      fix j assume "j < length ?pre"
      then consider "j < length pre" | "j = length pre" by fastforce
      then show "seg_len (?pre ! j) \<le> seg_len s"
      proof cases
        case 1
        then show ?thesis using Cons.prems(3) True old by fastforce
      next
        case 2
        then show ?thesis by simp
      qed
    qed
    have d: "\<forall>j < length pre. seg_len (?pre ! j) < seg_len s"
      using Cons.prems(3) True old by fastforce
    from Cons.IH[OF a b c d] show ?thesis
      unfolding app using True by (simp add: sl)
  next
    case False
    have a: "mi < length ?pre" using Cons.prems(1) by simp
    have b: "l = seg_len (?pre ! mi)" using Cons.prems(1,2) old by simp
    have c: "\<forall>j < length ?pre. seg_len (?pre ! j) \<le> l"
    proof (intro allI impI)
      fix j assume "j < length ?pre"
      then consider "j < length pre" | "j = length pre" by fastforce
      then show "seg_len (?pre ! j) \<le> l"
      proof cases
        case 1
        then show ?thesis using Cons.prems(3) old by simp
      next
        case 2
        then show ?thesis using False by simp
      qed
    qed
    have d: "\<forall>j < mi. seg_len (?pre ! j) < l"
      using Cons.prems(1,4) old by simp
    from Cons.IH[OF a b c d] show ?thesis
      unfolding app using False by (simp add: sl)
  qed
qed

lemma longest_index_max:
  assumes "segments \<noteq> []"
  shows "(\<forall>j < length segments. seg_len (segments ! j) \<le> seg_len (segments ! longest_index segments))
       \<and> (\<forall>j < longest_index segments.
             seg_len (segments ! j) < seg_len (segments ! longest_index segments))"
proof -
  obtain s rest where sr: "segments = s # rest" using assms by (cases segments) auto
  define k where "k = fst (longest_scan rest (length [s]) (0, Some (seg_len s)))"
  have li: "longest_index segments = k"
    by (simp add: longest_index_def sr seg_len_def k_def)
  have pre: "0 < length [s]" "seg_len s = seg_len ([s] ! 0)"
    "\<forall>j < length [s]. seg_len ([s] ! j) \<le> seg_len s"
    "\<forall>j < (0::nat). seg_len ([s] ! j) < seg_len s" by simp_all
  note M = longest_scan_max[OF pre, of rest, folded k_def]
  have sr': "segments = [s] @ rest" by (simp add: sr)
  show ?thesis unfolding li unfolding sr' using M by blast
qed

lemma free_segments_positive: "\<forall>s \<in> set (free_segments avoidAngles). 0 < seg_len s"
  by (auto simp: free_segments_def Let_def seg_len_def)

lemma usable_segments_positive: "\<forall>s \<in> set (usable_segments avoidAngles). 0 < seg_len s"
proof -
  have "0 < seg_len (0, pi * 2)" by (simp add: seg_len_def)
  then show ?thesis using free_segments_positive[of avoidAngles]
    by (auto simp: usable_segments_def Let_def)
qed

lemma rounded_counts_round:
  assumes "\<forall>s \<in> set segments. 0 < seg_len s" and "0 \<le> totalCount"
  shows "rounded_counts segments totalCount
         = map (\<lambda>s. round (real_of_int totalCount * seg_len s / sum_list (map seg_len segments)))
             segments"
proof -
  have t: "foldl (\<lambda>sum s. sum + (snd s - fst s)) 0 segments = sum_list (map seg_len segments)"
    using foldl_plus_sum[of "\<lambda>s. snd s - fst s" 0 segments] by (simp add: seg_len_def[abs_def])
  have tn: "0 \<le> sum_list (map seg_len segments)"
    using assms(1) by (intro sum_list_nonneg) auto
  have "max 0 (round (real_of_int totalCount * seg_len s / sum_list (map seg_len segments)))
        = round (real_of_int totalCount * seg_len s / sum_list (map seg_len segments))"
    if "s \<in> set segments" for s
  proof -
    have "0 \<le> real_of_int totalCount * seg_len s / sum_list (map seg_len segments)"
      using assms that tn by (intro divide_nonneg_nonneg mult_nonneg_nonneg) auto
    then have "0 \<le> round (real_of_int totalCount * seg_len s / sum_list (map seg_len segments))"
      by (simp add: round_def)
    then show ?thesis by simp
  qed
  then show ?thesis unfolding rounded_counts_def Let_def t by (simp add: seg_len_def)
qed

lemma allocate_closed:
  assumes ne: "segs \<noteq> []" and N0: "0 \<le> N"
  defines "R \<equiv> rounded_counts segs N" and "k \<equiv> longest_index segs"
  shows "\<exists>cs. allocate segs N = Some cs
            \<and> sum_list cs = N \<and> length cs = length segs \<and> list_all (\<lambda>c. 0 \<le> c) cs
            \<and> (sum_list R \<le> N \<longrightarrow> cs = R[k := R ! k + (N - sum_list R)])
            \<and> (N \<le> sum_list R \<longrightarrow> cs = rev (drain (sum_list R - N) (rev R)))"
proof -
  have len: "length R = length segs" by (simp add: R_def rounded_counts_def Let_def)
  have nonneg: "\<forall>c \<in> set R. 0 \<le> c" by (auto simp: R_def rounded_counts_def Let_def)
  have k: "k < length segs" unfolding k_def using ne by (rule longest_index_bound)
  have kR: "longest_index segs < length R" using k len by (simp add: k_def)
  have fs: "foldl (\<lambda>sum c. sum + c) 0 R = sum_list R"
    using foldl_plus_sum[of "\<lambda>c. c" 0 R] by simp
  have al: "allocate segs N = (case grow segs R (sum_list R) N of (cs, al) \<Rightarrow> shrink cs al N)"
    unfolding allocate_def Let_def R_def[symmetric] fs ..
  show ?thesis
  proof (cases "sum_list R < N")
    case True
    let ?cs = "R[k := R ! k + (N - sum_list R)]"
    have g: "grow segs R (sum_list R) N = (?cs, N)"
      unfolding grow_closed[OF kR] k_def using True by simp
    have sum: "sum_list ?cs = N"
    proof -
      have "sum_list ?cs = sum_list R + (N - sum_list R)"
        using k len by (intro sum_list_add_at) simp
      then show ?thesis by simp
    qed
    have nn: "list_all (\<lambda>c. 0 \<le> c) ?cs"
      unfolding list_all_iff
    proof
      fix c assume "c \<in> set ?cs"
      then have "c \<in> insert (R ! k + (N - sum_list R)) (set R)"
        using set_update_subset_insert by fast
      moreover have "0 \<le> R ! k" using nonneg k len by simp
      ultimately show "0 \<le> c" using nonneg True by auto
    qed
    have s: "shrink ?cs N N = Some ?cs" by (subst shrink.simps) simp
    have a: "allocate segs N = Some ?cs" unfolding al g prod.case by (rule s)
    have l: "length ?cs = length segs" using len by simp
    have e1: "sum_list R \<le> N \<longrightarrow> ?cs = ?cs" by simp
    have e2: "N \<le> sum_list R \<longrightarrow> ?cs = rev (drain (sum_list R - N) (rev R))" using True by simp
    show ?thesis by (intro exI[of _ ?cs] conjI a sum l nn e1 e2)
  next
    case False
    let ?cs = "rev (drain (sum_list R - N) (rev R))"
    have g: "grow segs R (sum_list R) N = (R, sum_list R)"
      unfolding grow_closed[OF kR] using False by simp
    have le: "N \<le> sum_list R" using False by simp
    have s: "shrink R (sum_list R) N = Some ?cs" by (rule shrink_closed[OF nonneg refl N0 le])
    from shrink_props[OF nonneg refl N0 le] obtain cs' where c':
      "shrink R (sum_list R) N = Some cs'" "sum_list cs' = N" "length cs' = length R"
      "\<forall>c \<in> set cs'. 0 \<le> c" by blast
    have cs': "cs' = ?cs" using c'(1) s by simp
    have sum: "sum_list ?cs = N" using c'(2) unfolding cs' .
    have l: "length ?cs = length segs" using c'(3) len unfolding cs' by simp
    have nn: "list_all (\<lambda>c. 0 \<le> c) ?cs" using c'(4) unfolding cs' list_all_iff .
    have a: "allocate segs N = Some ?cs" unfolding al g prod.case by (rule s)
    have e1: "sum_list R \<le> N \<longrightarrow> ?cs = R[k := R ! k + (N - sum_list R)]"
    proof
      assume "sum_list R \<le> N"
      then have e: "sum_list R = N" using le by simp
      have "drain 0 (rev R) = rev R" using nonneg by (intro drain_zero) simp
      then show "?cs = R[k := R ! k + (N - sum_list R)]" unfolding e by simp
    qed
    have e2: "N \<le> sum_list R \<longrightarrow> ?cs = ?cs" by simp
    show ?thesis by (intro exI[of _ ?cs] conjI a sum l nn e1 e2)
  qed
qed

text \<open>
  C7 (amended): in step 5 of the arrange layout every free segment has positive length
  and first gets its arc-length-proportional share of the orbital satellites rounded to
  the nearest integer (not floored). When the rounded counts \<open>R\<close> sum to less than the
  number of satellites, the whole shortfall goes to the first segment of greatest length;
  when they sum to more, the excess is taken from the last segments backwards, emptying
  one after the other. Both repair loops return, and the resulting counts are
  non-negative, one per segment, and sum to the number of orbital satellites.
\<close>

theorem arrange_segCounts_allocation:
  "let segments = usable_segments avoidAngles;
       N = int totalCount;
       share = (\<lambda>s. real_of_int N * seg_len s / sum_list (map seg_len segments));
       R = map (\<lambda>s. round (share s)) segments;
       k = longest_index segments
   in (\<forall>s \<in> set segments. 0 < seg_len s \<and> \<bar>real_of_int (round (share s)) - share s\<bar> \<le> 1 / 2)
      \<and> k < length segments
      \<and> (\<forall>j < length segments. seg_len (segments ! j) \<le> seg_len (segments ! k))
      \<and> (\<forall>j < k. seg_len (segments ! j) < seg_len (segments ! k))
      \<and> (\<exists>cs. arrange_segCounts avoidAngles totalCount = Some cs
            \<and> sum_list cs = N \<and> length cs = length segments \<and> list_all (\<lambda>c. 0 \<le> c) cs
            \<and> (sum_list R \<le> N \<longrightarrow> cs = R[k := R ! k + (N - sum_list R)])
            \<and> (N \<le> sum_list R \<longrightarrow> cs = rev (drain (sum_list R - N) (rev R))))"
proof -
  let ?segs = "usable_segments avoidAngles"
  let ?N = "int totalCount"
  have ne: "?segs \<noteq> []" by (rule usable_segments_nonempty)
  have pos: "\<forall>s \<in> set ?segs. 0 < seg_len s" by (rule usable_segments_positive)
  have N0: "0 \<le> ?N" by simp
  have rc: "map (\<lambda>s. round (real_of_int ?N * seg_len s / sum_list (map seg_len ?segs))) ?segs
            = rounded_counts ?segs ?N"
    by (rule rounded_counts_round[OF pos N0, symmetric])
  have 1: "\<forall>s \<in> set ?segs. 0 < seg_len s
        \<and> \<bar>real_of_int (round (real_of_int ?N * seg_len s / sum_list (map seg_len ?segs)))
             - real_of_int ?N * seg_len s / sum_list (map seg_len ?segs)\<bar> \<le> 1 / 2"
  proof
    fix s assume "s \<in> set ?segs"
    then have "0 < seg_len s" using pos by (rule bspec[rotated])
    then show "0 < seg_len s
        \<and> \<bar>real_of_int (round (real_of_int ?N * seg_len s / sum_list (map seg_len ?segs)))
             - real_of_int ?N * seg_len s / sum_list (map seg_len ?segs)\<bar> \<le> 1 / 2"
      using of_int_round_abs_le by (intro conjI)
  qed
  have k: "longest_index ?segs < length ?segs" using ne by (rule longest_index_bound)
  note lm = longest_index_max[OF ne]
  note A = allocate_closed[OF ne N0, folded arrange_segCounts_def]
  show ?thesis unfolding Let_def rc
    by (intro conjI 1 k lm[THEN conjunct1] lm[THEN conjunct2] A)
qed


theorem arrange_segCounts_allocation_witness:
  "\<exists>cs. arrange_segCounts [0, 1.15, 2.3] 3 = Some cs \<and> sum_list cs = 3 \<and> cs = [0, 0, 3]"
proof -
  define segs where "segs = usable_segments [0, 1.15, 2.3]"
  note T = arrange_segCounts_allocation[of "[0, 1.15, 2.3]" 3, unfolded Let_def, folded segs_def]
  have pos: "\<forall>s \<in> set segs. 0 < seg_len s" unfolding segs_def by (rule usable_segments_positive)
  have "map (\<lambda>s. round (real_of_int (int 3) * seg_len s / sum_list (map seg_len segs))) segs
        = rounded_counts segs (int 3)"
    by (rule rounded_counts_round[symmetric, OF pos]) simp
  also have "\<dots> = [0, 0, 2]"
    unfolding segs_def three_avoid_segments using three_avoid_rounded by simp
  finally have R: "map (\<lambda>s. round (real_of_int (int 3) * seg_len s / sum_list (map seg_len segs))) segs
        = [0, 0, 2]" .
  have k: "longest_index segs = 2" unfolding segs_def three_avoid_segments by (rule three_avoid_longest)
  from T[THEN conjunct2, THEN conjunct2, THEN conjunct2, THEN conjunct2] obtain cs where
    cs: "arrange_segCounts [0, 1.15, 2.3] 3 = Some cs
            \<and> sum_list cs = int 3 \<and> length cs = length segs \<and> list_all (\<lambda>c. 0 \<le> c) cs
            \<and> (sum_list [0, 0, 2] \<le> int 3 \<longrightarrow> cs = [0, 0, 2][2 := [0, 0, 2] ! 2 + (int 3 - sum_list [0, 0, 2])])
            \<and> (int 3 \<le> sum_list [0, 0, 2]
                  \<longrightarrow> cs = rev (drain (sum_list [0, 0, 2] - int 3) (rev [0, 0, 2])))"
    unfolding R k ..
  have a: "arrange_segCounts [0, 1.15, 2.3] 3 = Some cs" using cs by (rule conjunct1)
  have b: "sum_list cs = 3" using cs[THEN conjunct2, THEN conjunct1] by simp
  have c: "cs = [0, 0, 3]"
    using cs[THEN conjunct2, THEN conjunct2, THEN conjunct2, THEN conjunct2, THEN conjunct1]
    by simp
  show ?thesis by (intro exI[of _ cs] conjI a b c)
qed


section \<open>Division by zero as an error\<close>

text \<open>
  JavaScript division never throws: dividing by zero yields an infinity or NaN, which then
  spreads through every position computed from it. The model makes that case an explicit
  error value, so that "no force computation divides by zero" is the statement that the
  error is never returned.
\<close>

datatype error = DivisionByZero

definition checked_div :: "real \<Rightarrow> real \<Rightarrow> error + real" where
  "checked_div a b = (if b = 0 then Inl DivisionByZero else Inr (a / b))"

definition bind_err :: "error + 'a \<Rightarrow> ('a \<Rightarrow> error + 'b) \<Rightarrow> error + 'b" where
  "bind_err m f = (case m of Inl e \<Rightarrow> Inl e | Inr v \<Rightarrow> f v)"

text \<open>\<open>nx = dx / dist; ny = dy / dist\<close>.\<close>

definition unit_vector :: "real \<Rightarrow> real \<Rightarrow> real \<Rightarrow> error + real \<times> real" where
  "unit_vector dx dy d =
     bind_err (checked_div dx d) (\<lambda>nx. bind_err (checked_div dy d) (\<lambda>ny. Inr (nx, ny)))"

text \<open>\<open>if (dist === 0) dist = 0.01\<close>.\<close>

definition zero_to_epsilon :: "real \<Rightarrow> real" where
  "zero_to_epsilon d = (if d = 0 then 0.01 else d)"

section \<open>Arrange layout: the global separation pass\<close>

text \<open>
  \<open>applyGlobalSeparation\<close> (arrangeLayout.js 516-556) is the last step of
  \<open>arrangeLayout\<close>. It receives the targets computed by the steps before it, enters
  every node that has none with its model position (\<open>model?.x || 0\<close>), and then pushes
  overlapping pairs apart for at most 400 iterations. \<open>meta\<close> pairs each node id with
  its radius.
\<close>

type_synonym node_meta = "ident \<times> real"

definition node_metas :: "node list \<Rightarrow> node_meta list" where
  "node_metas ns = map (\<lambda>n. (nid n, getRadius n)) ns"

definition last_known :: "node option \<Rightarrow> point" where
  "last_known model = (case model of None \<Rightarrow> (0, 0)
                      | Some n \<Rightarrow> (js_or_undef (model_x n) 0, js_or_undef (model_y n) 0))"

definition fill_missing :: "node list \<Rightarrow> targets \<Rightarrow> targets" where
  "fill_missing allNodes tg =
     fold (\<lambda>m tg. if tg (fst m) = None then tg(fst m \<mapsto> last_known (findById allNodes (fst m))) else tg)
          (node_metas allNodes) tg"

text \<open>The body of the double loop (arrangeLayout.js 533-551) on the pair \<open>a = meta[i]\<close>,
  \<open>b = meta[j]\<close>; the state is the target map and \<open>maxMove\<close>. \<open>pa\<close> and \<open>pb\<close> are
  objects of the map mutated in place, which the model writes back under their ids.\<close>

definition separate_pair :: "node_meta \<Rightarrow> node_meta \<Rightarrow> targets \<times> real \<Rightarrow> error + targets \<times> real" where
  "separate_pair a b st =
     (case (fst st (fst a), fst st (fst b)) of
        (Some pa, Some pb) \<Rightarrow>
          (let dx = fst pb - fst pa;
               dy = snd pb - snd pa;
               dist = zero_to_epsilon (hypot dx dy);
               minDist = snd a + snd b + 8
           in if dist < minDist
              then let push = (minDist - dist) / 2
                   in bind_err (unit_vector dx dy dist) (\<lambda>(nx, ny).
                        Inr ((fst st)(fst a \<mapsto> (fst pa - nx * push, snd pa - ny * push),
                                      fst b \<mapsto> (fst pb + nx * push, snd pb + ny * push)),
                             max (snd st) push))
              else Inr st)
      | _ \<Rightarrow> Inr st)"

text \<open>\<open>for (i ...) for (j = i + 1 ...)\<close> over a list: every pair once, in index order.\<close>

fun pairs_from :: "('m \<Rightarrow> 'm \<Rightarrow> 's \<Rightarrow> error + 's) \<Rightarrow> 'm \<Rightarrow> 'm list \<Rightarrow> 's \<Rightarrow> error + 's" where
  "pairs_from step a [] st = Inr st"
| "pairs_from step a (b # bs) st = bind_err (step a b st) (pairs_from step a bs)"

fun all_pairs :: "('m \<Rightarrow> 'm \<Rightarrow> 's \<Rightarrow> error + 's) \<Rightarrow> 'm list \<Rightarrow> 's \<Rightarrow> error + 's" where
  "all_pairs step [] st = Inr st"
| "all_pairs step (a # rest) st = bind_err (pairs_from step a rest st) (all_pairs step rest)"

text \<open>\<open>for (iter = 0; iter < 400; iter++) { maxMove = 0; ...; if (maxMove < 0.3) break; }\<close>;
  the first argument counts the iterations left.\<close>

fun separation_iterations :: "nat \<Rightarrow> node_meta list \<Rightarrow> targets \<Rightarrow> error + targets" where
  "separation_iterations 0 ms tg = Inr tg"
| "separation_iterations (Suc k) ms tg =
     bind_err (all_pairs separate_pair ms (tg, 0))
       (\<lambda>(tg', maxMove). if maxMove < 0.3 then Inr tg' else separation_iterations k ms tg')"

definition applyGlobalSeparation :: "node list \<Rightarrow> targets \<Rightarrow> error + targets" where
  "applyGlobalSeparation allNodes tg =
     separation_iterations 400 (node_metas allNodes) (fill_missing allNodes tg)"



section \<open>Arrange layout: the other pairwise forces\<close>

text \<open>
  The bodies of the remaining pairwise computations of \<open>arrangeLayout\<close>, each on the
  positions and radii it reads: the spring along a two-entity relationship
  (arrangeLayout.js 141-160), the repulsion of two entities (171-190), the relationship
  clearance (213-233), the axis of a group of parallel relationships (407-413), the
  repulsion of two relationship diamonds (462-475) and of a diamond from an entity
  (488-498). The first four take \<open>Math.hypot(dx, dy) || 1\<close>, the last two replace a zero
  distance by 0.01.
\<close>

definition safeGap :: real where "safeGap = 50"

definition spring_step :: "point \<Rightarrow> point \<Rightarrow> real \<Rightarrow> real \<Rightarrow> real \<Rightarrow> error + point \<times> point \<times> real" where
  "spring_step posA posB rA rB maxMove =
     (let dx = fst posB - fst posA;
          dy = snd posB - snd posA;
          dist = js_or (hypot dx dy) 1;
          desired = rA + rB + safeGap;
          diff = desired - dist
      in if \<bar>diff\<bar> < 1 then Inr (posA, posB, maxMove)
         else bind_err (unit_vector dx dy dist) (\<lambda>(nx, ny).
                let move = (diff * 0.2) / 2
                in Inr ((fst posA - nx * move, snd posA - ny * move),
                        (fst posB + nx * move, snd posB + ny * move),
                        max maxMove \<bar>move\<bar>)))"

definition repel_step :: "point \<Rightarrow> point \<Rightarrow> real \<Rightarrow> real \<Rightarrow> real \<Rightarrow> error + point \<times> point \<times> real" where
  "repel_step posA posB rA rB maxMove =
     (let dx = fst posB - fst posA;
          dy = snd posB - snd posA;
          dist = js_or (hypot dx dy) 1;
          minDesc = rA + rB + safeGap
      in if dist < minDesc
         then let overlap = minDesc - dist
              in bind_err (unit_vector dx dy dist) (\<lambda>(nx, ny).
                   let move = overlap * 0.5 * 0.5
                   in Inr ((fst posA - nx * move, snd posA - ny * move),
                           (fst posB + nx * move, snd posB + ny * move),
                           max maxMove move))
         else Inr (posA, posB, maxMove))"

definition clearance_step :: "point \<Rightarrow> point \<Rightarrow> real \<Rightarrow> real \<Rightarrow> real \<Rightarrow> error + point \<times> point" where
  "clearance_step posA posB ringA ringB relRadius =
     (let clearanceGap = 12;
          dx = fst posB - fst posA;
          dy = snd posB - snd posA;
          dist = js_or (hypot dx dy) 1;
          minHalf = max (js_or ringA 40 + relRadius + clearanceGap)
                        (js_or ringB 40 + relRadius + clearanceGap);
          requiredDist = minHalf * 2
      in if dist \<ge> requiredDist then Inr (posA, posB)
         else let missing = requiredDist - dist
              in bind_err (unit_vector dx dy dist) (\<lambda>(nx, ny).
                   Inr ((fst posA - nx * missing / 2, snd posA - ny * missing / 2),
                        (fst posB + nx * missing / 2, snd posB + ny * missing / 2))))"

definition group_axis :: "point \<Rightarrow> point \<Rightarrow> error + real \<times> real" where
  "group_axis posA posB =
     (let dx = fst posB - fst posA;
          dy = snd posB - snd posA;
          dist = js_or (hypot dx dy) 1
      in bind_err (unit_vector dx dy dist) (\<lambda>(nx, ny). Inr (- ny, nx)))"

definition rel_rel_step :: "point \<Rightarrow> point \<Rightarrow> real \<Rightarrow> real \<Rightarrow> error + point \<times> point" where
  "rel_rel_step posA posB rA rB =
     (let dx = fst posB - fst posA;
          dy = snd posB - snd posA;
          dist = zero_to_epsilon (hypot dx dy);
          minDist = rA + rB + 14
      in if dist < minDist
         then let push = (minDist - dist) / 2
              in bind_err (unit_vector dx dy dist) (\<lambda>(nx, ny).
                   Inr ((fst posA - nx * push, snd posA - ny * push),
                        (fst posB + nx * push, snd posB + ny * push)))
         else Inr (posA, posB))"

definition rel_entity_step :: "point \<Rightarrow> point \<Rightarrow> real \<Rightarrow> error + point" where
  "rel_entity_step pos c limit =
     (let dx = fst pos - fst c;
          dy = snd pos - snd c;
          dist = zero_to_epsilon (hypot dx dy)
      in if dist < limit
         then let push = limit - dist
              in bind_err (unit_vector dx dy dist) (\<lambda>(nx, ny).
                   Inr (fst pos + nx * push, snd pos + ny * push))
         else Inr pos)"

text \<open>\<open>enforceLocalTriplets\<close> of force-align (forceAlignLayout.js 599-609): the unit
  vector from the anchor entity through the diamond, \<open>len = Math.hypot(dx, dy) || 1\<close>.\<close>

definition triplet_step :: "point \<Rightarrow> point \<Rightarrow> real \<Rightarrow> real \<Rightarrow> error + point" where
  "triplet_step pR anchor moveRad relRad =
     (let dx = fst pR - fst anchor;
          dy = snd pR - snd anchor;
          len = js_or (hypot dx dy) 1
      in bind_err (unit_vector dx dy len) (\<lambda>(ux, uy).
           Inr (fst pR + ux * (moveRad + relRad + 20), snd pR + uy * (moveRad + relRad + 20))))"



section \<open>Force-align layout: from the tiling to the returned map\<close>

text \<open>
  The part of \<open>forceAlignLayout\<close> after the components have been laid out
  (forceAlignLayout.js 451-728): the component layouts are tiled into \<open>globalTargets\<close>,
  the main-chain positions are recorded, the post-tiling passes run, every node without a
  target gets one, the core overlaps are resolved and the main-chain positions are
  restored.
\<close>

definition isCore :: "nodeType \<Rightarrow> bool" where
  "isCore t = (t = Entity \<or> t = Relationship)"

definition coreNodes :: "node list \<Rightarrow> node list" where
  "coreNodes allNodes = filter (\<lambda>n. isCore (nodeType n)) allNodes"

text \<open>
  Force-align (forceAlignLayout.js 30-99). \<open>nodeMap\<close> maps an id to the last node set
  under it; \<open>coreAdj\<close> takes only the edges whose two ends are known entity or
  relationship nodes; the components start from the core nodes in the order of the node
  list and visit each neighbour set in insertion order.
\<close>

definition nodeMap :: "node list \<Rightarrow> ident \<rightharpoonup> node" where
  "nodeMap ns = map_of (rev (map (\<lambda>n. (nid n, n)) ns))"

definition core_edge :: "node list \<Rightarrow> edge \<Rightarrow> bool" where
  "core_edge ns e =
     (case (nodeMap ns (source e), nodeMap ns (target e)) of
        (Some sNode, Some tNode) \<Rightarrow> isCore (nodeType sNode) \<and> isCore (nodeType tNode)
      | _ \<Rightarrow> False)"

definition coreAdj :: "node list \<Rightarrow> edge list \<Rightarrow> adjacency" where
  "coreAdj ns es = build_adj (filter (core_edge ns) es)"

definition forceAlign_components :: "node list \<Rightarrow> edge list \<Rightarrow> ident list list" where
  "forceAlign_components ns es =
     components_from None (coreAdj ns es) (map nid (coreNodes ns)) {}"

text \<open>forceAlignLayout.js 681-686:
  \<^verbatim>\<open>allNodes.forEach(n => { const m = n.getModel();
      if (!globalTargets.has(m.id)) globalTargets.set(m.id, { x: m.x || 0, y: m.y || 0 }); });\<close>\<close>

definition ensure_targets :: "node list \<Rightarrow> targets \<Rightarrow> targets" where
  "ensure_targets allNodes tg =
     fold (\<lambda>n tg. if tg (nid n) = None then tg(nid n \<mapsto> last_known (Some n)) else tg) allNodes tg"

text \<open>The body of the double loop of \<open>resolveCoreOverlaps\<close> (forceAlignLayout.js
  696-716): a main-chain node is pushed by 0, its partner then by the whole overlap.\<close>

definition resolve_pair :: "ident set \<Rightarrow> node_meta \<Rightarrow> node_meta \<Rightarrow> targets \<times> real
                              \<Rightarrow> error + targets \<times> real" where
  "resolve_pair mainChainIds a b st =
     (case (fst st (fst a), fst st (fst b)) of
        (Some pa, Some pb) \<Rightarrow>
          (let dx = fst pb - fst pa;
               dy = snd pb - snd pa;
               dist = zero_to_epsilon (hypot dx dy);
               minDist = snd a + snd b + 14
           in if dist < minDist
              then let overlap = minDist - dist
                   in bind_err (if fst a \<in> mainChainIds then Inr 0
                                else checked_div overlap (if fst b \<in> mainChainIds then 1 else 2)) (\<lambda>pushA.
                      bind_err (if fst b \<in> mainChainIds then Inr 0
                                else checked_div overlap (if fst a \<in> mainChainIds then 1 else 2)) (\<lambda>pushB.
                      bind_err (unit_vector dx dy dist) (\<lambda>(nx, ny).
                        Inr ((fst st)(fst a \<mapsto> (fst pa - nx * pushA, snd pa - ny * pushA),
                                      fst b \<mapsto> (fst pb + nx * pushB, snd pb + ny * pushB)),
                             max (snd st) (max pushA pushB)))))
              else Inr st)
      | _ \<Rightarrow> Inr st)"

text \<open>\<open>for (iter = 0; iter < 120; iter++) { moved = 0; ...; if (moved < 0.5) break; }\<close>.\<close>

fun resolve_iterations :: "nat \<Rightarrow> ident set \<Rightarrow> node_meta list \<Rightarrow> targets \<Rightarrow> error + targets" where
  "resolve_iterations 0 mainChainIds ms tg = Inr tg"
| "resolve_iterations (Suc k) mainChainIds ms tg =
     bind_err (all_pairs (resolve_pair mainChainIds) ms (tg, 0))
       (\<lambda>(tg', moved). if moved < 0.5 then Inr tg' else resolve_iterations k mainChainIds ms tg')"

definition resolveCoreOverlaps :: "node list \<Rightarrow> ident set \<Rightarrow> targets \<Rightarrow> error + targets" where
  "resolveCoreOverlaps allNodes mainChainIds tg =
     resolve_iterations 120 mainChainIds (node_metas (coreNodes allNodes)) tg"


text \<open>What \<open>layoutComponent\<close> returns: the component's own target map (a \<open>Map\<close>,
  iterated in insertion order), its bounds and the ids of its main chain.\<close>

record layout =
  layout_targets :: "(ident \<times> point) list"
  bounds_minX :: real
  bounds_maxX :: real
  bounds_minY :: real
  bounds_maxY :: real
  mainPathSet :: "ident list"

text \<open>The state of the tiling loop (forceAlignLayout.js 452-480).\<close>

record tiling =
  globalTargets :: targets
  cursorX :: real
  cursorY :: real
  rowHeight :: real
  mainChainIds :: "ident set"

definition componentGap :: real where
  "componentGap = 240"

definition tile_component :: "real \<Rightarrow> layout \<Rightarrow> tiling \<Rightarrow> tiling" where
  "tile_component containerWidth l t =
     (let width = (bounds_maxX l - bounds_minX l) + componentGap;
          height = (bounds_maxY l - bounds_minY l) + componentGap;
          wrap = (cursorX t + width > containerWidth - componentGap / 2);
          cx = (if wrap then componentGap else cursorX t);
          cy = (if wrap then cursorY t + rowHeight t + componentGap else cursorY t);
          rh = (if wrap then 0 else rowHeight t);
          offsetX = cx - bounds_minX l;
          offsetY = cy - bounds_minY l
      in \<lparr>globalTargets =
            fold (\<lambda>(i, pos) g. g(i \<mapsto> (fst pos + offsetX, snd pos + offsetY)))
                 (layout_targets l) (globalTargets t),
          cursorX = cx + width,
          cursorY = cy,
          rowHeight = max rh height,
          mainChainIds = mainChainIds t \<union> set (mainPathSet l)\<rparr>)"

definition tile_all :: "real \<Rightarrow> layout list \<Rightarrow> tiling" where
  "tile_all containerWidth componentLayouts =
     fold (tile_component containerWidth) componentLayouts
       \<lparr>globalTargets = Map.empty, cursorX = componentGap, cursorY = componentGap,
        rowHeight = 0, mainChainIds = {}\<rparr>"

text \<open>
  The tail of \<open>forceAlignLayout\<close>. \<open>mainAnchorPos\<close> holds a copy (\<open>{ ...p }\<close>) of the
  tiled position of every main-chain id that has one (forceAlignLayout.js 483-487). The
  passes between that and line 681 (side spacing, branch reprojection, triplet
  straightening, midpoint snapping, attribute placement) only read and write
  \<open>globalTargets\<close> and the side hints; they are the parameter \<open>passes\<close>, an arbitrary
  function of the target map, so what is proved below holds whatever they do. The last
  step (726-728) writes every recorded position back.
\<close>

definition forceAlign_finish ::
  "(targets \<Rightarrow> targets) \<Rightarrow> node list \<Rightarrow> real \<Rightarrow> layout list \<Rightarrow> error + targets" where
  "forceAlign_finish passes allNodes containerWidth componentLayouts =
     (let tiled = tile_all containerWidth componentLayouts;
          mainAnchorPos = globalTargets tiled |` mainChainIds tiled;
          placed = passes (globalTargets tiled);
          filled = ensure_targets allNodes placed
      in bind_err (resolveCoreOverlaps allNodes (mainChainIds tiled) filled)
           (\<lambda>resolved. Inr (resolved ++ mainAnchorPos)))"


section \<open>Concrete inputs for the final passes\<close>

text \<open>Two relationship nodes without any edge, one unit apart, each with a 6 by 8 box
  (radius 5). No step of the arrange layout computes a target for them.\<close>


definition loose_pair :: "node list" where
  "loose_pair = [mk_node ''r1'' Relationship 0 0 None (box (-3) (-4) 6 8),
                 mk_node ''r2'' Relationship 1 0 None (box (-2) (-4) 6 8)]"


text \<open>A chain entity - relationship - entity with an attribute \<open>x\<close> that has no parent,
  and the layout of the chain as \<open>layoutComponent\<close> returns it: the main chain found by
  the double breadth-first search is \<open>e2, r, e1\<close>, laid out left to right at spacing 200
  about 0, and every radius is 50.\<close>

definition chain_nodes :: "node list" where
  "chain_nodes = [mk_node ''e1'' Entity 0 0 None (box (-30) (-40) 60 80),
                  mk_node ''r'' Relationship 10 0 None (box (-20) (-40) 60 80),
                  mk_node ''e2'' Entity 20 0 None (box (-10) (-40) 60 80),
                  mk_node ''x'' Attribute 7 9 None (box 4 5 6 8)]"

definition chain_layout :: layout where
  "chain_layout =
     \<lparr>layout_targets = [(''e2'', (- 200, 0)), (''r'', (0, 0)), (''e1'', (200, 0))],
      bounds_minX = - 250, bounds_maxX = 250, bounds_minY = - 50, bounds_maxY = 50,
      mainPathSet = [''e2'', ''r'', ''e1'']\<rparr>"


section \<open>Properties of the final passes\<close>


lemma unit_vector_ok: "d \<noteq> 0 \<Longrightarrow> unit_vector dx dy d = Inr (dx / d, dy / d)"
  by (simp add: unit_vector_def checked_div_def bind_err_def)

lemma zero_to_epsilon_nonzero: "zero_to_epsilon d \<noteq> 0"
  by (simp add: zero_to_epsilon_def)

lemma js_or_nonzero: "b \<noteq> 0 \<Longrightarrow> js_or a b \<noteq> 0"
  by (simp add: js_or_def)

lemma spring_step_ok: "\<exists>r. spring_step posA posB rA rB maxMove = Inr r"
  by (simp add: spring_step_def Let_def unit_vector_ok js_or_nonzero bind_err_def)

lemma repel_step_ok: "\<exists>r. repel_step posA posB rA rB maxMove = Inr r"
  by (simp add: repel_step_def Let_def unit_vector_ok js_or_nonzero bind_err_def)

lemma clearance_step_ok: "\<exists>r. clearance_step posA posB ringA ringB relRadius = Inr r"
  by (simp add: clearance_step_def Let_def unit_vector_ok js_or_nonzero bind_err_def)

lemma group_axis_ok: "\<exists>r. group_axis posA posB = Inr r"
  by (simp add: group_axis_def Let_def unit_vector_ok js_or_nonzero bind_err_def)

lemma rel_rel_step_ok: "\<exists>r. rel_rel_step posA posB rA rB = Inr r"
  by (simp add: rel_rel_step_def Let_def unit_vector_ok zero_to_epsilon_nonzero bind_err_def)

lemma rel_entity_step_ok: "\<exists>r. rel_entity_step pos c limit = Inr r"
  by (simp add: rel_entity_step_def Let_def unit_vector_ok zero_to_epsilon_nonzero bind_err_def)

lemma triplet_step_ok: "\<exists>r. triplet_step pR anchor moveRad relRad = Inr r"
  by (simp add: triplet_step_def Let_def unit_vector_ok js_or_nonzero bind_err_def)

text \<open>What a pair step may change: entries stay entries, and only the two ids of the
  pair are touched.\<close>

definition same_keys_except :: "ident set \<Rightarrow> targets \<Rightarrow> targets \<Rightarrow> bool" where
  "same_keys_except movable tg tg' =
     (dom tg' = dom tg \<and> (\<forall>i. i \<notin> movable \<longrightarrow> tg' i = tg i))"

lemma same_keys_except_refl: "same_keys_except M tg tg"
  by (simp add: same_keys_except_def)

lemma same_keys_except_trans:
  "same_keys_except M a b \<Longrightarrow> same_keys_except M b c \<Longrightarrow> same_keys_except M a c"
  by (simp add: same_keys_except_def)

lemma same_keys_except_mono:
  "same_keys_except M a b \<Longrightarrow> M \<subseteq> N \<Longrightarrow> same_keys_except N a b"
  by (auto simp: same_keys_except_def)

lemma pairs_from_invariant:
  assumes "\<And>b st. b \<in> set bs \<Longrightarrow> \<exists>st'. step a b st = Inr st' \<and> R st st'"
    and "\<And>st. R st st" and "\<And>x y z. R x y \<Longrightarrow> R y z \<Longrightarrow> R x z"
  shows "\<exists>st'. pairs_from step a bs st = Inr st' \<and> R st st'"
  using assms(1)
proof (induction bs arbitrary: st)
  case Nil
  show ?case using assms(2) by simp
next
  case (Cons b bs)
  from Cons.prems[of b st] obtain st1 where s1: "step a b st = Inr st1" "R st st1" by auto
  from Cons.IH[of st1] Cons.prems obtain st2 where s2: "pairs_from step a bs st1 = Inr st2" "R st1 st2"
    by auto
  show ?case using s1 s2 assms(3) by (auto simp: bind_err_def)
qed

lemma all_pairs_invariant:
  assumes "\<And>a b st. a \<in> set ms \<Longrightarrow> b \<in> set ms \<Longrightarrow> \<exists>st'. step a b st = Inr st' \<and> R st st'"
    and "\<And>st. R st st" and "\<And>x y z. R x y \<Longrightarrow> R y z \<Longrightarrow> R x z"
  shows "\<exists>st'. all_pairs step ms st = Inr st' \<and> R st st'"
  using assms(1)
proof (induction ms arbitrary: st)
  case Nil
  show ?case using assms(2) by simp
next
  case (Cons a rest)
  have "\<exists>st'. pairs_from step a rest st = Inr st' \<and> R st st'"
    by (rule pairs_from_invariant[OF _ assms(2,3)]) (use Cons.prems in auto)
  then obtain st1 where s1: "pairs_from step a rest st = Inr st1" "R st st1" by auto
  from Cons.IH[of st1] Cons.prems obtain st2 where s2: "all_pairs step rest st1 = Inr st2" "R st1 st2"
    by auto
  show ?case using s1 s2 assms(3) by (auto simp: bind_err_def)
qed

lemma separate_pair_invariant:
  "\<exists>st'. separate_pair a b st = Inr st' \<and> same_keys_except {fst a, fst b} (fst st) (fst st')"
proof -
  obtain tg mv where st: "st = (tg, mv)" by (cases st)
  show ?thesis
  proof (cases "tg (fst a)")
    case None
    then show ?thesis by (simp add: st separate_pair_def same_keys_except_refl)
  next
    case (Some pa)
    note A = this
    show ?thesis
    proof (cases "tg (fst b)")
      case None
      then show ?thesis using A by (simp add: st separate_pair_def same_keys_except_refl)
    next
      case (Some pb)
      then show ?thesis using A
        by (auto simp: st separate_pair_def Let_def unit_vector_ok zero_to_epsilon_nonzero
            bind_err_def same_keys_except_def)
    qed
  qed
qed


lemma resolve_pair_invariant:
  "\<exists>st'. resolve_pair main a b st = Inr st' \<and>
         same_keys_except ({fst a, fst b} - main) (fst st) (fst st')"
proof -
  obtain tg mv where st: "st = (tg, mv)" by (cases st)
  show ?thesis
  proof (cases "tg (fst a)")
    case None
    then show ?thesis by (simp add: st resolve_pair_def same_keys_except_refl)
  next
    case (Some pa)
    note A = this
    show ?thesis
    proof (cases "tg (fst b)")
      case None
      then show ?thesis using A by (simp add: st resolve_pair_def same_keys_except_refl)
    next
      case (Some pb)
      then show ?thesis using A
        by (auto simp: st resolve_pair_def Let_def unit_vector_ok zero_to_epsilon_nonzero
            bind_err_def same_keys_except_def checked_div_def)
    qed
  qed
qed

lemma separation_pass_invariant:
  "\<exists>st'. all_pairs separate_pair ms st = Inr st' \<and> same_keys_except (fst ` set ms) (fst st) (fst st')"
proof (rule all_pairs_invariant)
  fix a b :: node_meta and st :: "targets \<times> real"
  assume "a \<in> set ms" "b \<in> set ms"
  then have "{fst a, fst b} \<subseteq> fst ` set ms" by auto
  with separate_pair_invariant[of a b st]
  show "\<exists>st'. separate_pair a b st = Inr st' \<and> same_keys_except (fst ` set ms) (fst st) (fst st')"
    using same_keys_except_mono by blast
qed (auto intro: same_keys_except_refl same_keys_except_trans)

lemma resolve_pass_invariant:
  "\<exists>st'. all_pairs (resolve_pair main) ms st = Inr st' \<and>
         same_keys_except (fst ` set ms - main) (fst st) (fst st')"
proof (rule all_pairs_invariant)
  fix a b :: node_meta and st :: "targets \<times> real"
  assume "a \<in> set ms" "b \<in> set ms"
  then have "{fst a, fst b} - main \<subseteq> fst ` set ms - main" by auto
  with resolve_pair_invariant[of main a b st]
  show "\<exists>st'. resolve_pair main a b st = Inr st' \<and>
          same_keys_except (fst ` set ms - main) (fst st) (fst st')"
    using same_keys_except_mono by blast
qed (auto intro: same_keys_except_refl same_keys_except_trans)

lemma separation_iterations_invariant:
  "\<exists>tg'. separation_iterations k ms tg = Inr tg' \<and> same_keys_except (fst ` set ms) tg tg'"
proof (induction k arbitrary: tg)
  case 0
  show ?case by (simp add: same_keys_except_refl)
next
  case (Suc k)
  from separation_pass_invariant[of ms "(tg, 0)"] obtain tg1 mv where
    p: "all_pairs separate_pair ms (tg, 0) = Inr (tg1, mv)" "same_keys_except (fst ` set ms) tg tg1"
    by auto
  from Suc.IH[of tg1] obtain tg2 where
    q: "separation_iterations k ms tg1 = Inr tg2" "same_keys_except (fst ` set ms) tg1 tg2" by auto
  show ?case using p q same_keys_except_trans by (auto simp: bind_err_def)
qed

lemma resolve_iterations_invariant:
  "\<exists>tg'. resolve_iterations k main ms tg = Inr tg' \<and> same_keys_except (fst ` set ms - main) tg tg'"
proof (induction k arbitrary: tg)
  case 0
  show ?case by (simp add: same_keys_except_refl)
next
  case (Suc k)
  from resolve_pass_invariant[of main ms "(tg, 0)"] obtain tg1 mv where
    p: "all_pairs (resolve_pair main) ms (tg, 0) = Inr (tg1, mv)"
       "same_keys_except (fst ` set ms - main) tg tg1"
    by auto
  from Suc.IH[of tg1] obtain tg2 where
    q: "resolve_iterations k main ms tg1 = Inr tg2" "same_keys_except (fst ` set ms - main) tg1 tg2"
    by auto
  show ?case using p q same_keys_except_trans by (auto simp: bind_err_def)
qed

lemma fill_missing_fold:
  "fold (\<lambda>m tg. if tg (fst m) = None then tg(fst m \<mapsto> f (fst m)) else tg) ms tg i
     = (case tg i of Some p \<Rightarrow> Some p
        | None \<Rightarrow> if i \<in> fst ` set ms then Some (f i) else None)"
proof (induction ms arbitrary: tg)
  case Nil
  show ?case by (simp split: option.splits)
next
  case (Cons m ms)
  show ?case by (auto simp: Cons.IH split: option.splits)
qed

lemma fill_missing_eq:
  "fill_missing allNodes tg i
     = (case tg i of Some p \<Rightarrow> Some p
        | None \<Rightarrow> if i \<in> nid ` set allNodes then Some (last_known (findById allNodes i)) else None)"
proof -
  have "fst ` set (node_metas allNodes) = nid ` set allNodes" by (force simp: node_metas_def)
  then show ?thesis
    unfolding fill_missing_def
    using fill_missing_fold[of "\<lambda>i. last_known (findById allNodes i)" "node_metas allNodes" tg i]
    by simp
qed

lemma ensure_targets_eq:
  "ensure_targets allNodes tg i
     = (case tg i of Some p \<Rightarrow> Some p
        | None \<Rightarrow> if i \<in> nid ` set allNodes then Some (last_known (findById allNodes i)) else None)"
  unfolding ensure_targets_def
proof (induction allNodes arbitrary: tg)
  case Nil
  show ?case by (simp split: option.splits)
next
  case (Cons n ns)
  show ?case by (auto simp: Cons.IH findById_def split: option.splits)
qed


lemma applyGlobalSeparation_complete:
  "\<exists>t. applyGlobalSeparation allNodes tg = Inr t \<and> dom t = dom tg \<union> nid ` set allNodes"
proof -
  from separation_iterations_invariant[of 400 "node_metas allNodes" "fill_missing allNodes tg"]
  obtain t where t: "applyGlobalSeparation allNodes tg = Inr t" "dom t = dom (fill_missing allNodes tg)"
    by (auto simp: applyGlobalSeparation_def same_keys_except_def)
  have "dom (fill_missing allNodes tg) = dom tg \<union> nid ` set allNodes"
    by (auto simp: dom_def fill_missing_eq split: option.splits if_splits)
  with t show ?thesis by simp
qed

lemma resolveCoreOverlaps_frame:
  "\<exists>t. resolveCoreOverlaps allNodes main tg = Inr t \<and> dom t = dom tg \<and>
       (\<forall>i. i \<in> main \<or> i \<notin> nid ` set (coreNodes allNodes) \<longrightarrow> t i = tg i)"
proof -
  have "fst ` set (node_metas (coreNodes allNodes)) = nid ` set (coreNodes allNodes)"
    by (force simp: node_metas_def)
  with resolve_iterations_invariant[of 120 main "node_metas (coreNodes allNodes)" tg]
  show ?thesis by (auto simp: resolveCoreOverlaps_def same_keys_except_def)
qed

lemma forceAlign_finish_props:
  fixes passes allNodes w ls
  defines "tiled \<equiv> tile_all w ls"
  shows "\<exists>t. forceAlign_finish passes allNodes w ls = Inr t
       \<and> nid ` set allNodes \<subseteq> dom t
       \<and> (\<forall>i p. i \<in> mainChainIds tiled \<longrightarrow> globalTargets tiled i = Some p \<longrightarrow> t i = Some p)
       \<and> (\<forall>i. i \<notin> mainChainIds tiled \<longrightarrow> i \<notin> nid ` set (coreNodes allNodes) \<longrightarrow>
              t i = ensure_targets allNodes (passes (globalTargets tiled)) i)"
proof -
  let ?filled = "ensure_targets allNodes (passes (globalTargets tiled))"
  from resolveCoreOverlaps_frame[of allNodes "mainChainIds tiled" ?filled]
  obtain r where r: "resolveCoreOverlaps allNodes (mainChainIds tiled) ?filled = Inr r"
    "dom r = dom ?filled"
    "\<forall>i. i \<in> mainChainIds tiled \<or> i \<notin> nid ` set (coreNodes allNodes) \<longrightarrow> r i = ?filled i"
    by blast
  have f: "forceAlign_finish passes allNodes w ls
           = Inr (r ++ (globalTargets tiled |` mainChainIds tiled))"
    using r(1) by (simp add: forceAlign_finish_def Let_def tiled_def bind_err_def)
  have "nid ` set allNodes \<subseteq> dom ?filled"
    by (auto simp: dom_def ensure_targets_eq split: option.splits)
  then have a: "nid ` set allNodes \<subseteq> dom (r ++ (globalTargets tiled |` mainChainIds tiled))"
    using r(2) by auto
  have b: "\<forall>i p. i \<in> mainChainIds tiled \<longrightarrow> globalTargets tiled i = Some p \<longrightarrow>
             (r ++ (globalTargets tiled |` mainChainIds tiled)) i = Some p"
    by (simp add: map_add_def restrict_map_def)
  have c: "\<forall>i. i \<notin> mainChainIds tiled \<longrightarrow> i \<notin> nid ` set (coreNodes allNodes) \<longrightarrow>
             (r ++ (globalTargets tiled |` mainChainIds tiled)) i = ?filled i"
    using r(3) by (simp add: map_add_def restrict_map_def)
  show ?thesis using f a b c by blast
qed

lemma sqrt_6_8: "sqrt (6 * 6 + 8 * 8) = 10"
proof -
  have "sqrt (6 * 6 + 8 * 8) = sqrt (10\<^sup>2)" by simp
  then show ?thesis by simp
qed

lemma hypot_horizontal: "hypot dx 0 = \<bar>dx\<bar>"
  by (simp add: hypot_def)

lemma loose_pair_metas: "node_metas loose_pair = [(''r1'', 5), (''r2'', 5)]"
  by (simp add: node_metas_def loose_pair_def mk_node_def box_def getRadius_def sqrt_6_8)

lemma loose_pair_fill:
  "fill_missing loose_pair Map.empty = [''r1'' \<mapsto> (0, 0), ''r2'' \<mapsto> (1, 0)]"
  unfolding fill_missing_def loose_pair_metas
  by (simp add: loose_pair_def findById_def last_known_def mk_node_def js_or_def js_or_undef_def)

lemma loose_pair_first_pass:
  "all_pairs separate_pair [(''r1'', 5), (''r2'', 5)] ([''r1'' \<mapsto> (0, 0), ''r2'' \<mapsto> (1, 0)], 0)
     = Inr ([''r1'' \<mapsto> (- 8.5, 0), ''r2'' \<mapsto> (9.5, 0)], 8.5)"
  by (simp add: separate_pair_def bind_err_def hypot_horizontal zero_to_epsilon_def Let_def
      unit_vector_def checked_div_def)

lemma loose_pair_second_pass:
  "all_pairs separate_pair [(''r1'', 5), (''r2'', 5)] ([''r1'' \<mapsto> (- 8.5, 0), ''r2'' \<mapsto> (9.5, 0)], 0)
     = Inr ([''r1'' \<mapsto> (- 8.5, 0), ''r2'' \<mapsto> (9.5, 0)], 0)"
  by (simp add: separate_pair_def bind_err_def hypot_horizontal zero_to_epsilon_def Let_def)

lemma separation_two_passes:
  assumes "all_pairs separate_pair ms (tg, 0) = Inr (tg1, m1)" and "\<not> m1 < 0.3"
    and "all_pairs separate_pair ms (tg1, 0) = Inr (tg2, m2)" and "m2 < 0.3"
  shows "separation_iterations (Suc (Suc k)) ms tg = Inr tg2"
  using assms by (simp add: bind_err_def)

lemma chain_tiled:
  "globalTargets (tile_all 1200 [chain_layout])
     = [''e2'' \<mapsto> (290, 290), ''r'' \<mapsto> (490, 290), ''e1'' \<mapsto> (690, 290)]"
  "mainChainIds (tile_all 1200 [chain_layout]) = {''e2'', ''r'', ''e1''}"
  by (simp_all add: tile_all_def tile_component_def chain_layout_def componentGap_def Let_def)


text \<open>
  C1 (as stated): a node that received no computed target has its last-known position in
  the returned map. In the arrange layout the fallback entry is made before the global
  separation, which moves it like any other: two unconnected relationship nodes at (0, 0)
  and (1, 0) with radius 5 are returned at (-8.5, 0) and (9.5, 0).
\<close>

theorem fallback_displaced_counterexample:
  "applyGlobalSeparation loose_pair Map.empty = Inr [''r1'' \<mapsto> (- 8.5, 0), ''r2'' \<mapsto> (9.5, 0)]
   \<and> last_known (findById loose_pair ''r1'') = (0, 0)
   \<and> last_known (findById loose_pair ''r2'') = (1, 0)"
proof -
  have n: "(400::nat) = Suc (Suc 398)" by simp
  have "separation_iterations (Suc (Suc 398)) [(''r1'', 5), (''r2'', 5)]
          [''r1'' \<mapsto> (0, 0), ''r2'' \<mapsto> (1, 0)]
          = Inr [''r1'' \<mapsto> (- 8.5, 0), ''r2'' \<mapsto> (9.5, 0)]"
    by (rule separation_two_passes[OF loose_pair_first_pass _ loose_pair_second_pass]) simp_all
  then have "applyGlobalSeparation loose_pair Map.empty
          = Inr [''r1'' \<mapsto> (- 8.5, 0), ''r2'' \<mapsto> (9.5, 0)]"
    unfolding applyGlobalSeparation_def loose_pair_metas loose_pair_fill n .
  then show ?thesis
    by (simp add: loose_pair_def findById_def last_known_def mk_node_def js_or_def js_or_undef_def)
qed



section \<open>Main-chain invariance and division by zero\<close>


text \<open>
  C3: in force-align, every main-chain node is returned at the position the tiling gave
  it, whatever the post-tiling passes did to its entry; and the overlap resolution itself
  never moves a main-chain node (its push is 0).
\<close>

theorem mainChain_positions_kept:
  "(\<exists>t. forceAlign_finish passes ns w ls = Inr t
        \<and> (\<forall>i \<in> mainChainIds (tile_all w ls). \<forall>p.
              globalTargets (tile_all w ls) i = Some p \<longrightarrow> t i = Some p))
   \<and> (\<exists>r. resolveCoreOverlaps ns main tg = Inr r \<and> (\<forall>i \<in> main. r i = tg i))"
proof
  from forceAlign_finish_props[of passes ns w ls] obtain t where
    "forceAlign_finish passes ns w ls = Inr t"
    "\<forall>i p. i \<in> mainChainIds (tile_all w ls) \<longrightarrow> globalTargets (tile_all w ls) i = Some p
        \<longrightarrow> t i = Some p"
    by blast
  then show "\<exists>t. forceAlign_finish passes ns w ls = Inr t
        \<and> (\<forall>i \<in> mainChainIds (tile_all w ls). \<forall>p.
              globalTargets (tile_all w ls) i = Some p \<longrightarrow> t i = Some p)"
    by blast
  from resolveCoreOverlaps_frame[of ns main tg]
  show "\<exists>r. resolveCoreOverlaps ns main tg = Inr r \<and> (\<forall>i \<in> main. r i = tg i)"
    by blast
qed

theorem mainChain_positions_kept_witness:
  "(\<exists>t. forceAlign_finish (\<lambda>g. g(''r'' \<mapsto> (0, 0))) chain_nodes 1200 [chain_layout] = Inr t
        \<and> t ''r'' = Some (490, 290))
   \<and> (\<exists>r. resolveCoreOverlaps chain_nodes {''e1''} [''e1'' \<mapsto> (0, 0), ''r'' \<mapsto> (1, 0)] = Inr r
        \<and> r ''e1'' = Some (0, 0))"
proof -
  note T = mainChain_positions_kept[of "\<lambda>g. g(''r'' \<mapsto> (0, 0))" chain_nodes 1200 "[chain_layout]"
      "{''e1''}" "[''e1'' \<mapsto> (0, 0), ''r'' \<mapsto> (1, 0)]"]
  from T[THEN conjunct1] obtain t where
    t: "forceAlign_finish (\<lambda>g. g(''r'' \<mapsto> (0, 0))) chain_nodes 1200 [chain_layout] = Inr t
        \<and> (\<forall>i \<in> mainChainIds (tile_all 1200 [chain_layout]). \<forall>p.
              globalTargets (tile_all 1200 [chain_layout]) i = Some p \<longrightarrow> t i = Some p)" ..
  have m: "''r'' \<in> mainChainIds (tile_all 1200 [chain_layout])" by (simp add: chain_tiled)
  have g: "globalTargets (tile_all 1200 [chain_layout]) ''r'' = Some (490, 290)"
    by (simp add: chain_tiled)
  have t2: "t ''r'' = Some (490, 290)"
    using bspec[OF t[THEN conjunct2] m, THEN spec, THEN mp, OF g] .
  from T[THEN conjunct2] obtain r where
    r: "resolveCoreOverlaps chain_nodes {''e1''} [''e1'' \<mapsto> (0, 0), ''r'' \<mapsto> (1, 0)] = Inr r
        \<and> (\<forall>i \<in> {''e1''}. r i = [''e1'' \<mapsto> (0, 0), ''r'' \<mapsto> (1, 0)] i)" ..
  have r2: "r ''e1'' = Some (0, 0)" using r[THEN conjunct2] by simp
  show ?thesis
    by (intro conjI exI[of _ t] exI[of _ r] t[THEN conjunct1] t2 r[THEN conjunct1] r2)
qed

text \<open>
  C9: no pairwise force computation of the arrange layout or of force-align divides by
  zero. Every unit vector is formed with a distance that was replaced when it was zero
  (by 1 where the code writes \<open>Math.hypot(dx, dy) || 1\<close>, by 0.01 where it writes
  \<open>if (dist === 0) dist = 0.01\<close>), so each step returns a value and never the error, and
  so do the two complete overlap loops.
\<close>

theorem forces_never_divide_by_zero:
  "(\<exists>r. spring_step posA posB rA rB maxMove = Inr r)
   \<and> (\<exists>r. repel_step posA posB rA rB maxMove = Inr r)
   \<and> (\<exists>r. clearance_step posA posB ringA ringB relRadius = Inr r)
   \<and> (\<exists>r. group_axis posA posB = Inr r)
   \<and> (\<exists>r. rel_rel_step posA posB rA rB = Inr r)
   \<and> (\<exists>r. rel_entity_step posA posB limit = Inr r)
   \<and> (\<exists>r. separate_pair a b st = Inr r)
   \<and> (\<exists>r. triplet_step posA posB rA rB = Inr r)
   \<and> (\<exists>r. resolve_pair main a b st = Inr r)
   \<and> (\<exists>t. applyGlobalSeparation ns tg = Inr t)
   \<and> (\<exists>t. resolveCoreOverlaps ns main tg = Inr t)
   \<and> js_or (hypot 0 0) 1 = 1 \<and> zero_to_epsilon (hypot 0 0) = 0.01"
proof -
  have "\<exists>r. separate_pair a b st = Inr r" using separate_pair_invariant[of a b st] by blast
  moreover have "\<exists>r. resolve_pair main a b st = Inr r"
    using resolve_pair_invariant[of main a b st] by blast
  moreover have "\<exists>t. applyGlobalSeparation ns tg = Inr t"
    using applyGlobalSeparation_complete[of ns tg] by blast
  moreover have "\<exists>t. resolveCoreOverlaps ns main tg = Inr t"
    using resolveCoreOverlaps_frame[of ns main tg] by blast
  moreover have "js_or (hypot 0 0) 1 = 1" "zero_to_epsilon (hypot 0 0) = 0.01"
    by (simp_all add: js_or_def hypot_def zero_to_epsilon_def)
  ultimately show ?thesis
    using spring_step_ok repel_step_ok clearance_step_ok group_axis_ok rel_rel_step_ok
      rel_entity_step_ok triplet_step_ok
    by (intro conjI) blast+
qed


section \<open>Component decomposition: what the traversal order depends on\<close>





































































section \<open>The two layouts, from the snapshot to the map handed to the animation\<close>

text \<open>
  \<open>arrangeLayout\<close> (arrangeLayout.js 18-564) returns at once, with no map, when the graph
  has no node (line 25). Otherwise steps 1 to 7 (lines 27-514) fill \<open>targets\<close>, each entry
  with an object of its own, and \<open>applyGlobalSeparation\<close> completes and separates it; the
  result is what \<open>animateNodesToTargets\<close> receives. Steps 1 to 7 are the parameter
  \<open>steps\<close>, an arbitrary function from the snapshot to a target map, so what is proved
  holds whatever they compute. \<open>None\<close> is the return without a map. (The snapshot is a
  live graph: the test \<open>!graph || graph.destroyed\<close> of line 22 is false.)
\<close>

definition arrangeLayout :: "(graph \<Rightarrow> targets) \<Rightarrow> graph \<Rightarrow> (error + targets) option" where
  "arrangeLayout steps g =
     (if nodes g = [] then None
      else Some (applyGlobalSeparation (nodes g) (steps g)))"

text \<open>
  \<open>forceAlignLayout\<close> (forceAlignLayout.js 20-733) returns with no map when there is no
  node (line 26), no entity or relationship node (line 42) or no edge between two such
  nodes (line 75). Otherwise the core components are laid out one by one
  (\<open>components.map(layoutComponent)\<close>, lines 138-449: the parameter \<open>layouts\<close>, an
  arbitrary function from the list of components to their layouts) and the tail modelled
  by \<open>forceAlign_finish\<close> produces the map that \<open>animateNodesToTargets\<close> receives.
\<close>

definition forceAlign_tiled :: "(ident list list \<Rightarrow> layout list) \<Rightarrow> graph \<Rightarrow> real \<Rightarrow> tiling" where
  "forceAlign_tiled layouts g containerWidth =
     tile_all containerWidth (layouts (forceAlign_components (nodes g) (edges g)))"

definition forceAlignLayout ::
  "(ident list list \<Rightarrow> layout list) \<Rightarrow> (targets \<Rightarrow> targets) \<Rightarrow> graph \<Rightarrow> real
     \<Rightarrow> (error + targets) option" where
  "forceAlignLayout layouts passes g containerWidth =
     (if nodes g = [] then None
      else if coreNodes (nodes g) = [] then None
      else if coreAdj (nodes g) (edges g) = [] then None
      else Some (forceAlign_finish passes (nodes g) containerWidth
                   (layouts (forceAlign_components (nodes g) (edges g)))))"

text \<open>Two relationship nodes without any edge, for the arrange layout; and the chain
  \<open>e1 - r - e2\<close> with a placed attribute \<open>x\<close> and an attribute \<open>y\<close> that has no
  coordinates yet, neither with a parent, for force-align.\<close>

definition loose_graph :: graph where
  "loose_graph = \<lparr>nodes = loose_pair, edges = [], graph_width = 1200, graph_height = 800\<rparr>"

definition chain_graph :: graph where
  "chain_graph =
     \<lparr>nodes = chain_nodes @ [mk_unplaced ''y'' Attribute None (box 0 0 6 8)],
      edges = [mk_edge ''e1'' ''r'', mk_edge ''r'' ''e2''],
      graph_width = 1200, graph_height = 800\<rparr>"

lemma last_known_Some:
  "last_known (Some n) = (case model_x n of None \<Rightarrow> 0 | Some v \<Rightarrow> v,
                          case model_y n of None \<Rightarrow> 0 | Some v \<Rightarrow> v)"
  by (simp add: last_known_def js_or_undef_def js_or_def split: option.splits)

lemma chain_graph_core_edges:
  "filter (core_edge (nodes chain_graph)) (edges chain_graph) = edges chain_graph"
  by (simp add: chain_graph_def chain_nodes_def core_edge_def nodeMap_def mk_node_def mk_edge_def
      mk_unplaced_def isCore_def)

lemma chain_graph_adj:
  "coreAdj (nodes chain_graph) (edges chain_graph)
     = [(''e1'', [''r'']), (''r'', [''e1'', ''e2'']), (''e2'', [''r''])]"
  unfolding coreAdj_def chain_graph_core_edges
  by (simp add: chain_graph_def build_adj_def add_edge_def ensure_key_def add_neighbour_def
      set_add_def mk_edge_def)

lemma chain_graph_core:
  "map nid (coreNodes (nodes chain_graph)) = [''e1'', ''r'', ''e2'']"
  by (simp add: coreNodes_def chain_graph_def chain_nodes_def mk_node_def mk_unplaced_def isCore_def)

lemma chain_graph_components:
  "forceAlign_components (nodes chain_graph) (edges chain_graph) = [[''e1'', ''r'', ''e2'']]"
  unfolding forceAlign_components_def chain_graph_adj chain_graph_core
  by (simp add: neighbour_order_def)

text \<open>
  C1 (amended): whenever the arrange layout or force-align hands a target map to the
  animation, the map has an entry for every input node id. The arrange layout does so
  exactly when the graph has a node; force-align exactly when it has a node, an entity
  or relationship node, and an edge between two such nodes: otherwise they return
  without a map. A node without a computed target is entered with its last-known
  position, 0 standing for a coordinate that is not set, before the final overlap pass.
  Force-align returns that position for every such node that is neither a core node nor
  on a main chain; the arrange layout's global separation may still move it.
\<close>

theorem target_map_complete:
  "(arrangeLayout steps g = None) = (nodes g = [])
   \<and> (nodes g \<noteq> [] \<longrightarrow>
        (\<exists>t. arrangeLayout steps g = Some (Inr t) \<and> nid ` set (nodes g) \<subseteq> dom t))
   \<and> (\<forall>n \<in> set (nodes g). steps g (nid n) = None \<longrightarrow>
         fill_missing (nodes g) (steps g) (nid n) = Some (last_known (findById (nodes g) (nid n))))
   \<and> (forceAlignLayout layouts passes h w = None)
       = (nodes h = [] \<or> coreNodes (nodes h) = [] \<or> coreAdj (nodes h) (edges h) = [])
   \<and> (forceAlignLayout layouts passes h w \<noteq> None \<longrightarrow>
        (\<exists>t. forceAlignLayout layouts passes h w = Some (Inr t) \<and> nid ` set (nodes h) \<subseteq> dom t
           \<and> (\<forall>n \<in> set (nodes h).
                 passes (globalTargets (forceAlign_tiled layouts h w)) (nid n) = None
                 \<and> nid n \<notin> mainChainIds (forceAlign_tiled layouts h w)
                 \<and> nid n \<notin> nid ` set (coreNodes (nodes h))
                 \<longrightarrow> t (nid n) = Some (last_known (findById (nodes h) (nid n))))))
   \<and> last_known None = (0, 0)
   \<and> last_known (Some m) = (case model_x m of None \<Rightarrow> 0 | Some v \<Rightarrow> v,
                             case model_y m of None \<Rightarrow> 0 | Some v \<Rightarrow> v)"
proof (intro conjI)
  show "(arrangeLayout steps g = None) = (nodes g = [])" by (simp add: arrangeLayout_def)
  show "nodes g \<noteq> [] \<longrightarrow>
        (\<exists>t. arrangeLayout steps g = Some (Inr t) \<and> nid ` set (nodes g) \<subseteq> dom t)"
    using applyGlobalSeparation_complete[of "nodes g" "steps g"] by (auto simp: arrangeLayout_def)
  show "\<forall>n \<in> set (nodes g). steps g (nid n) = None \<longrightarrow>
         fill_missing (nodes g) (steps g) (nid n) = Some (last_known (findById (nodes g) (nid n)))"
    by (simp add: fill_missing_eq)
  show "(forceAlignLayout layouts passes h w = None)
       = (nodes h = [] \<or> coreNodes (nodes h) = [] \<or> coreAdj (nodes h) (edges h) = [])"
    by (simp add: forceAlignLayout_def)
  show "forceAlignLayout layouts passes h w \<noteq> None \<longrightarrow>
        (\<exists>t. forceAlignLayout layouts passes h w = Some (Inr t) \<and> nid ` set (nodes h) \<subseteq> dom t
           \<and> (\<forall>n \<in> set (nodes h).
                 passes (globalTargets (forceAlign_tiled layouts h w)) (nid n) = None
                 \<and> nid n \<notin> mainChainIds (forceAlign_tiled layouts h w)
                 \<and> nid n \<notin> nid ` set (coreNodes (nodes h))
                 \<longrightarrow> t (nid n) = Some (last_known (findById (nodes h) (nid n)))))"
  proof
    assume a: "forceAlignLayout layouts passes h w \<noteq> None"
    let ?ls = "layouts (forceAlign_components (nodes h) (edges h))"
    have f: "forceAlignLayout layouts passes h w = Some (forceAlign_finish passes (nodes h) w ?ls)"
      using a by (simp add: forceAlignLayout_def split: if_splits)
    from forceAlign_finish_props[of passes "nodes h" w ?ls] obtain t where t:
      "forceAlign_finish passes (nodes h) w ?ls = Inr t" "nid ` set (nodes h) \<subseteq> dom t"
      "\<forall>i. i \<notin> mainChainIds (tile_all w ?ls) \<longrightarrow> i \<notin> nid ` set (coreNodes (nodes h)) \<longrightarrow>
              t i = ensure_targets (nodes h) (passes (globalTargets (tile_all w ?ls))) i"
      by blast
    have "\<forall>n \<in> set (nodes h).
                 passes (globalTargets (forceAlign_tiled layouts h w)) (nid n) = None
                 \<and> nid n \<notin> mainChainIds (forceAlign_tiled layouts h w)
                 \<and> nid n \<notin> nid ` set (coreNodes (nodes h))
                 \<longrightarrow> t (nid n) = Some (last_known (findById (nodes h) (nid n)))"
      unfolding forceAlign_tiled_def using t(3) by (simp add: ensure_targets_eq)
    with f t(1,2) show "\<exists>t. forceAlignLayout layouts passes h w = Some (Inr t)
           \<and> nid ` set (nodes h) \<subseteq> dom t
           \<and> (\<forall>n \<in> set (nodes h).
                 passes (globalTargets (forceAlign_tiled layouts h w)) (nid n) = None
                 \<and> nid n \<notin> mainChainIds (forceAlign_tiled layouts h w)
                 \<and> nid n \<notin> nid ` set (coreNodes (nodes h))
                 \<longrightarrow> t (nid n) = Some (last_known (findById (nodes h) (nid n))))"
      by (intro exI[of _ t]) simp
  qed
  show "last_known None = (0, 0)" by (simp add: last_known_def)
  show "last_known (Some m) = (case model_x m of None \<Rightarrow> 0 | Some v \<Rightarrow> v,
                             case model_y m of None \<Rightarrow> 0 | Some v \<Rightarrow> v)"
    by (rule last_known_Some)
qed

theorem target_map_complete_witness:
  "(\<exists>t. arrangeLayout (\<lambda>g. Map.empty) loose_graph = Some (Inr t) \<and> {''r1'', ''r2''} \<subseteq> dom t)
   \<and> fill_missing loose_pair Map.empty ''r2'' = Some (1, 0)
   \<and> (\<exists>t. forceAlignLayout (map (\<lambda>c. chain_layout)) (\<lambda>tg. tg) chain_graph 1200 = Some (Inr t)
         \<and> {''e1'', ''r'', ''e2'', ''x'', ''y''} \<subseteq> dom t
         \<and> t ''x'' = Some (7, 9) \<and> t ''y'' = Some (0, 0))"
proof -
  note T = target_map_complete[of "\<lambda>g. Map.empty" loose_graph "map (\<lambda>c. chain_layout)" "\<lambda>tg. tg"
      chain_graph 1200]
  have ids: "nid ` set (nodes loose_graph) = {''r1'', ''r2''}"
    "nid ` set (nodes chain_graph) = {''e1'', ''r'', ''e2'', ''x'', ''y''}"
    by (auto simp: loose_graph_def loose_pair_def chain_graph_def chain_nodes_def mk_node_def
        mk_unplaced_def)
  have ne: "nodes loose_graph \<noteq> []" by (simp add: loose_graph_def loose_pair_def)
  from T[THEN conjunct2, THEN conjunct1, THEN mp, OF ne] obtain t1 where
    a: "arrangeLayout (\<lambda>g. Map.empty) loose_graph = Some (Inr t1)
        \<and> nid ` set (nodes loose_graph) \<subseteq> dom t1" ..
  have a1: "arrangeLayout (\<lambda>g. Map.empty) loose_graph = Some (Inr t1)" using a by (rule conjunct1)
  have a2: "{''r1'', ''r2''} \<subseteq> dom t1" using a[THEN conjunct2] unfolding ids .
  have r2: "mk_node ''r2'' Relationship 1 0 None (box (-2) (-4) 6 8) \<in> set (nodes loose_graph)"
    by (simp add: loose_graph_def loose_pair_def)
  have lk2: "last_known (findById loose_pair ''r2'') = (1, 0)"
    by (simp add: loose_pair_def findById_def last_known_def mk_node_def js_or_def js_or_undef_def)
  have f: "fill_missing loose_pair Map.empty ''r2'' = Some (1, 0)"
    using bspec[OF T[THEN conjunct2, THEN conjunct2, THEN conjunct1] r2] lk2
    by (simp add: mk_node_def loose_graph_def)
  have run: "forceAlignLayout (map (\<lambda>c. chain_layout)) (\<lambda>tg. tg) chain_graph 1200 \<noteq> None"
  proof -
    have "nodes chain_graph \<noteq> []" by (simp add: chain_graph_def)
    moreover have "coreNodes (nodes chain_graph) \<noteq> []" using chain_graph_core by auto
    moreover have "coreAdj (nodes chain_graph) (edges chain_graph) \<noteq> []"
      by (simp add: chain_graph_adj)
    ultimately show ?thesis
      using T[THEN conjunct2, THEN conjunct2, THEN conjunct2, THEN conjunct1] by simp
  qed
  from T[THEN conjunct2, THEN conjunct2, THEN conjunct2, THEN conjunct2, THEN conjunct1, THEN mp,
      OF run]
  obtain t2 where
    c: "forceAlignLayout (map (\<lambda>c. chain_layout)) (\<lambda>tg. tg) chain_graph 1200 = Some (Inr t2)
      \<and> nid ` set (nodes chain_graph) \<subseteq> dom t2
      \<and> (\<forall>n \<in> set (nodes chain_graph).
               globalTargets (forceAlign_tiled (map (\<lambda>c. chain_layout)) chain_graph 1200) (nid n) = None
               \<and> nid n \<notin> mainChainIds (forceAlign_tiled (map (\<lambda>c. chain_layout)) chain_graph 1200)
               \<and> nid n \<notin> nid ` set (coreNodes (nodes chain_graph))
               \<longrightarrow> t2 (nid n) = Some (last_known (findById (nodes chain_graph) (nid n))))" ..
  have tiled: "forceAlign_tiled (map (\<lambda>c. chain_layout)) chain_graph 1200 = tile_all 1200 [chain_layout]"
    by (simp add: forceAlign_tiled_def chain_graph_components)
  have core: "''x'' \<notin> nid ` set (coreNodes (nodes chain_graph))"
    "''y'' \<notin> nid ` set (coreNodes (nodes chain_graph))"
  proof -
    have "nid ` set (coreNodes (nodes chain_graph)) = set [''e1'', ''r'', ''e2'']"
      unfolding chain_graph_core[symmetric] by simp
    then show "''x'' \<notin> nid ` set (coreNodes (nodes chain_graph))"
      "''y'' \<notin> nid ` set (coreNodes (nodes chain_graph))" by simp_all
  qed
  have x: "mk_node ''x'' Attribute 7 9 None (box 4 5 6 8) \<in> set (nodes chain_graph)"
    and y: "mk_unplaced ''y'' Attribute None (box 0 0 6 8) \<in> set (nodes chain_graph)"
    by (simp_all add: chain_graph_def chain_nodes_def)
  have lk: "last_known (findById (nodes chain_graph) ''x'') = (7, 9)"
    "last_known (findById (nodes chain_graph) ''y'') = (0, 0)"
    by (simp_all add: chain_graph_def chain_nodes_def findById_def last_known_def mk_node_def
        mk_unplaced_def js_or_def js_or_undef_def)
  have c1: "forceAlignLayout (map (\<lambda>c. chain_layout)) (\<lambda>tg. tg) chain_graph 1200 = Some (Inr t2)"
    using c by (rule conjunct1)
  have c2: "{''e1'', ''r'', ''e2'', ''x'', ''y''} \<subseteq> dom t2"
    using c[THEN conjunct2, THEN conjunct1] unfolding ids .
  have c3: "t2 ''x'' = Some (7, 9)"
    using bspec[OF c[THEN conjunct2, THEN conjunct2] x] lk(1) core(1) unfolding tiled
    by (simp add: mk_node_def chain_tiled)
  have c4: "t2 ''y'' = Some (0, 0)"
    using bspec[OF c[THEN conjunct2, THEN conjunct2] y] lk(2) core(2) unfolding tiled
    by (simp add: mk_unplaced_def chain_tiled)
  show ?thesis
    by (intro conjI exI[of _ t1] exI[of _ t2] a1 a2 f c1 c2 c3 c4)
qed

end
